theory Spec2Isabelle
  imports Main
begin

section \<open>The map directory state store of htmap (\<^verbatim>\<open>htmap/htio.py\<close>)\<close>

text \<open>
  The module saves and loads the artifacts of a map under its map directory. Every
  function of it is a few calls into the Python runtime (files, \<^verbatim>\<open>str\<close>, \<^verbatim>\<open>int\<close>,
  \<^verbatim>\<open>str.splitlines\<close>, \<^verbatim>\<open>str.strip\<close>) and into libraries (\<^verbatim>\<open>gzip\<close>, \<^verbatim>\<open>cloudpickle\<close>,
  \<^verbatim>\<open>json\<close>). The embedding passes the file system explicitly, returns exceptions as
  values, and models the runtime calls the functions make.
\<close>

subsection \<open>Exceptions\<close>

text \<open>
  The exceptions that the runtime calls of the module raise. The last four names are the
  error taxonomy of the documentation (\<^verbatim>\<open>NotFoundError\<close>, \<^verbatim>\<open>CorruptStateError\<close>,
  \<^verbatim>\<open>SerializationError\<close>, \<^verbatim>\<open>DeserializationError\<close>): the module defines none of them
  and no model function below constructs them; they are here so that statements can
  tell them from the exceptions that are raised.
\<close>

datatype exn =
    FileNotFoundError
  | NotADirectoryError
  | IsADirectoryError
  | ValueError
  | EOFError
  | TypeError
  | PicklingError
  | UnpicklingError
  | BadGzipFile
  | JSONDecodeError
  | NotFoundError
  | CorruptStateError
  | SerializationError
  | DeserializationError

type_synonym 'a result = "exn + 'a"

subsection \<open>Text: \<^verbatim>\<open>str(int)\<close>, \<^verbatim>\<open>int(str)\<close>, \<^verbatim>\<open>str.strip\<close>, \<^verbatim>\<open>str.splitlines\<close>\<close>

text \<open>
  Text is a \<^typ>\<open>string\<close> of code points below 256. \<^verbatim>\<open>str(n)\<close> of an integer is its
  decimal representation, with a leading minus sign when negative.
\<close>

definition digit_char :: "nat \<Rightarrow> char" where
  "digit_char d = char_of (48 + d)"

fun str_nat :: "nat \<Rightarrow> string" where
  "str_nat n = (if n < 10 then [digit_char n] else str_nat (n div 10) @ [digit_char (n mod 10)])"

declare str_nat.simps [simp del]

definition py_str :: "int \<Rightarrow> string" where
  "py_str i = (if i < 0 then CHR ''-'' # str_nat (nat (- i)) else str_nat (nat i))"

text \<open>
  \<^verbatim>\<open>str.isspace\<close> on one code point below 256: tab, line feed, vertical tab, form feed,
  carriage return, the four separators \<^verbatim>\<open>0x1c\<close> to \<^verbatim>\<open>0x1f\<close>, space, \<^verbatim>\<open>0x85\<close> and
  \<^verbatim>\<open>0xa0\<close>. \<^verbatim>\<open>str.strip()\<close> removes such characters at both ends.
\<close>

definition is_space :: "char \<Rightarrow> bool" where
  "is_space c = (let n = (of_char c :: nat) in
     (9 \<le> n \<and> n \<le> 13) \<or> (28 \<le> n \<and> n \<le> 32) \<or> n = 133 \<or> n = 160)"

definition strip :: "string \<Rightarrow> string" where
  "strip s = rev (dropWhile is_space (rev (dropWhile is_space s)))"

definition is_digit :: "char \<Rightarrow> bool" where
  "is_digit c = (let n = (of_char c :: nat) in 48 \<le> n \<and> n \<le> 57)"

definition digit_val :: "char \<Rightarrow> nat" where
  "digit_val c = of_char c - 48"

text \<open>
  \<^verbatim>\<open>int(s)\<close> in base 10: surrounding whitespace is ignored, then an optional sign, then
  decimal digits, where single underscores may stand between two digits. Anything
  else, the empty string included, raises \<^verbatim>\<open>ValueError\<close>. \<open>digits_acc\<close> reads the
  characters after a digit.
\<close>

fun digits_acc :: "nat \<Rightarrow> string \<Rightarrow> nat option" where
  "digits_acc acc [] = Some acc"
| "digits_acc acc (c # cs) =
     (if is_digit c then digits_acc (acc * 10 + digit_val c) cs
      else if c = CHR ''_'' then
        (case cs of
           [] \<Rightarrow> None
         | d # ds \<Rightarrow> if is_digit d then digits_acc (acc * 10 + digit_val d) ds else None)
      else None)"

definition parse_digits :: "string \<Rightarrow> nat option" where
  "parse_digits s =
     (case s of
        [] \<Rightarrow> None
      | c # cs \<Rightarrow> if is_digit c then digits_acc (digit_val c) cs else None)"

text \<open>The number that a string of digits denotes.\<close>

definition digits_value :: "string \<Rightarrow> nat" where
  "digits_value ds = foldl (\<lambda>a c. a * 10 + digit_val c) 0 ds"

definition py_int :: "string \<Rightarrow> int result" where
  "py_int s =
     (case strip s of
        [] \<Rightarrow> Inl ValueError
      | c # cs \<Rightarrow>
          if c = CHR ''-'' then
            (case parse_digits cs of None \<Rightarrow> Inl ValueError | Some n \<Rightarrow> Inr (- int n))
          else if c = CHR ''+'' then
            (case parse_digits cs of None \<Rightarrow> Inl ValueError | Some n \<Rightarrow> Inr (int n))
          else
            (case parse_digits (c # cs) of None \<Rightarrow> Inl ValueError | Some n \<Rightarrow> Inr (int n)))"

text \<open>
  \<^verbatim>\<open>str.splitlines()\<close>: the line boundaries below 256 are line feed, carriage return
  (with a following line feed, one boundary), vertical tab, form feed, \<^verbatim>\<open>0x1c\<close>,
  \<^verbatim>\<open>0x1d\<close>, \<^verbatim>\<open>0x1e\<close> and \<^verbatim>\<open>0x85\<close>. The boundaries are dropped, and a last line
  without boundary is kept unless it is empty. \<open>cur\<close> is the line read so far.
\<close>

definition is_linebreak :: "char \<Rightarrow> bool" where
  "is_linebreak c = (let n = (of_char c :: nat) in
     (10 \<le> n \<and> n \<le> 13) \<or> (28 \<le> n \<and> n \<le> 30) \<or> n = 133)"

fun splitlines_from :: "string \<Rightarrow> string \<Rightarrow> string list" where
  "splitlines_from cur [] = (if cur = [] then [] else [cur])"
| "splitlines_from cur (c # cs) =
     (if c = CHR 0x0D then
        (case cs of
           [] \<Rightarrow> [cur]
         | d # ds \<Rightarrow> if d = CHR 0x0A then cur # splitlines_from [] ds
                     else cur # splitlines_from [] (d # ds))
      else if is_linebreak c then cur # splitlines_from [] cs
      else splitlines_from (cur @ [c]) cs)"

definition splitlines :: "string \<Rightarrow> string list" where
  "splitlines s = splitlines_from [] s"

subsection \<open>The file system\<close>

text \<open>
  A path is the list of its components, and \<^verbatim>\<open>p / name\<close> adds one. The file system
  maps a path to a directory or to a file with its content. Opening a path for
  writing needs its parent to be a directory and the path not to be one.
\<close>

type_synonym path = "string list"

datatype node = File string | Dir

type_synonym fs = "path \<Rightarrow> node option"

definition path_join :: "path \<Rightarrow> string \<Rightarrow> path" where
  "path_join p name = p @ [name]"

definition open_check :: "path \<Rightarrow> fs \<Rightarrow> exn option" where
  "open_check p fs =
     (case fs (butlast p) of
        None \<Rightarrow> Some FileNotFoundError
      | Some (File _) \<Rightarrow> Some NotADirectoryError
      | Some Dir \<Rightarrow> (case fs p of Some Dir \<Rightarrow> Some IsADirectoryError | _ \<Rightarrow> None))"

text \<open>Mode \<^verbatim>\<open>w\<close> creates the file or truncates it; mode \<^verbatim>\<open>a\<close> creates it or keeps it.\<close>

definition open_w :: "path \<Rightarrow> fs \<Rightarrow> fs result" where
  "open_w p fs =
     (case open_check p fs of Some e \<Rightarrow> Inl e | None \<Rightarrow> Inr (fs(p \<mapsto> File [])))"

definition open_a :: "path \<Rightarrow> fs \<Rightarrow> fs result" where
  "open_a p fs =
     (case open_check p fs of
        Some e \<Rightarrow> Inl e
      | None \<Rightarrow> (case fs p of Some (File c) \<Rightarrow> Inr fs | _ \<Rightarrow> Inr (fs(p \<mapsto> File []))))"

text \<open>Writing to an open file adds to its end.\<close>

definition file_write :: "path \<Rightarrow> string \<Rightarrow> fs \<Rightarrow> fs" where
  "file_write p s fs =
     (case fs p of Some (File c) \<Rightarrow> fs(p \<mapsto> File (c @ s)) | _ \<Rightarrow> fs)"

definition open_r :: "path \<Rightarrow> fs \<Rightarrow> string result" where
  "open_r p fs =
     (case fs p of
        Some (File c) \<Rightarrow> Inr c
      | Some Dir \<Rightarrow> Inl IsADirectoryError
      | None \<Rightarrow>
          (case fs (butlast p) of
             Some (File _) \<Rightarrow> Inl NotADirectoryError
           | _ \<Rightarrow> Inl FileNotFoundError))"

text \<open>
  A file opened in text mode for reading translates \<^verbatim>\<open>\r\n\<close> and \<^verbatim>\<open>\r\<close> to
  \<^verbatim>\<open>\n\<close>. Writing in text mode translates nothing (POSIX), and the encoding of text is
  taken as the identity.
\<close>

fun universal_newlines :: "string \<Rightarrow> string" where
  "universal_newlines [] = []"
| "universal_newlines [c] = (if c = CHR 0x0D then [CHR 0x0A] else [c])"
| "universal_newlines (c # d # ds) =
     (if c = CHR 0x0D then
        (if d = CHR 0x0A then CHR 0x0A # universal_newlines ds
         else CHR 0x0A # universal_newlines (d # ds))
      else c # universal_newlines (d # ds))"

text \<open>\<^verbatim>\<open>Path.write_text\<close> returns the number of characters written.\<close>

definition write_text :: "path \<Rightarrow> string \<Rightarrow> fs \<Rightarrow> nat result \<times> fs" where
  "write_text p s fs =
     (case open_w p fs of
        Inl e \<Rightarrow> (Inl e, fs)
      | Inr fs1 \<Rightarrow> (Inr (length s), file_write p s fs1))"

definition read_text :: "path \<Rightarrow> fs \<Rightarrow> string result" where
  "read_text p fs =
     (case open_r p fs of Inl e \<Rightarrow> Inl e | Inr c \<Rightarrow> Inr (universal_newlines c))"

subsection \<open>The artifact names\<close>

text \<open>
  Modelled from the spec: the constants \<^verbatim>\<open>names.INPUTS_DIR\<close>, \<^verbatim>\<open>names.INPUT_EXT\<close>,
  \<^verbatim>\<open>names.NUM_COMPONENTS\<close>, \<^verbatim>\<open>names.CLUSTER_IDS\<close> and \<^verbatim>\<open>names.ITEMDATA\<close> of the
  module \<^verbatim>\<open>names\<close>, which \<^verbatim>\<open>htio.py\<close> imports and whose source is missing. The
  directory layout of the spec names the artifacts \<^verbatim>\<open>inputs/<i>.in\<close>,
  \<^verbatim>\<open>num_components\<close>, \<^verbatim>\<open>cluster_ids\<close> and \<^verbatim>\<open>itemdata\<close>.
\<close>

definition INPUTS_DIR :: string where "INPUTS_DIR = ''inputs''"
definition INPUT_EXT :: string where "INPUT_EXT = ''in''"
definition NUM_COMPONENTS :: string where "NUM_COMPONENTS = ''num_components''"
definition CLUSTER_IDS :: string where "CLUSTER_IDS = ''cluster_ids''"
definition ITEMDATA :: string where "ITEMDATA = ''itemdata''"

subsection \<open>The component count\<close>

definition num_components_path :: "path \<Rightarrow> path" where
  "num_components_path map_dir = path_join map_dir NUM_COMPONENTS"

definition save_num_components :: "path \<Rightarrow> int \<Rightarrow> fs \<Rightarrow> unit result \<times> fs" where
  "save_num_components map_dir num_components fs =
     (case write_text (num_components_path map_dir) (py_str num_components) fs of
        (Inl e, fs') \<Rightarrow> (Inl e, fs')
      | (Inr _, fs') \<Rightarrow> (Inr (), fs'))"

definition load_num_components :: "path \<Rightarrow> fs \<Rightarrow> int result" where
  "load_num_components map_dir fs =
     (case read_text (num_components_path map_dir) fs of
        Inl e \<Rightarrow> Inl e
      | Inr s \<Rightarrow> py_int s)"

subsection \<open>The cluster id log\<close>

definition cluster_ids_path :: "path \<Rightarrow> path" where
  "cluster_ids_path map_dir = path_join map_dir CLUSTER_IDS"

definition append_cluster_id :: "path \<Rightarrow> int \<Rightarrow> fs \<Rightarrow> unit result \<times> fs" where
  "append_cluster_id map_dir cluster_id fs =
     (case open_a (cluster_ids_path map_dir) fs of
        Inl e \<Rightarrow> (Inl e, fs)
      | Inr fs1 \<Rightarrow>
          (Inr (), file_write (cluster_ids_path map_dir) (py_str cluster_id @ [CHR 0x0A]) fs1))"

text \<open>The list comprehension stops at the first line that \<^verbatim>\<open>int\<close> rejects.\<close>

fun int_each :: "string list \<Rightarrow> int list result" where
  "int_each [] = Inr []"
| "int_each (cid # cids) =
     (case py_int (strip cid) of
        Inl e \<Rightarrow> Inl e
      | Inr i \<Rightarrow> (case int_each cids of Inl e \<Rightarrow> Inl e | Inr is \<Rightarrow> Inr (i # is)))"

definition load_cluster_ids :: "path \<Rightarrow> fs \<Rightarrow> int list result" where
  "load_cluster_ids map_dir fs =
     (case read_text (cluster_ids_path map_dir) fs of
        Inl e \<Rightarrow> Inl e
      | Inr s \<Rightarrow> int_each (splitlines s))"

text \<open>
  A caller that appends one cluster id after the other, as one submission after the
  other does; it stops at the first append that fails.
\<close>

fun append_each :: "path \<Rightarrow> int list \<Rightarrow> fs \<Rightarrow> unit result \<times> fs" where
  "append_each map_dir [] fs = (Inr (), fs)"
| "append_each map_dir (i # is) fs =
     (case append_cluster_id map_dir i fs of
        (Inl e, fs') \<Rightarrow> (Inl e, fs')
      | (Inr _, fs') \<Rightarrow> append_each map_dir is fs')"

text \<open>The text of a log that holds the given cluster ids.\<close>

definition log_text :: "int list \<Rightarrow> string" where
  "log_text ids = concat (map (\<lambda>i. py_str i @ [CHR 0x0A]) ids)"

subsection \<open>The object codec\<close>

text \<open>
  \<^verbatim>\<open>gzip\<close> and \<^verbatim>\<open>cloudpickle\<close> are libraries, taken as parameters.
  \<^item> \<open>pickle_dump c v\<close> is \<^verbatim>\<open>cloudpickle.dump(v, file)\<close>: the bytes it writes to the
    file, and the exception it raises, if any.
  \<^item> \<open>pickle_load c data\<close> is \<^verbatim>\<open>cloudpickle.load(file)\<close> on a file whose unread
    content is \<open>data\<close>: the object read and the content left unread, or the
    exception raised.
  \<^item> \<open>gzip_compress c data\<close> is what a file opened with \<^verbatim>\<open>gzip.open(path, "wb")\<close>
    holds when it is closed after \<open>data\<close> was written to it: one gzip member.
  \<^item> \<open>gzip_decompress c raw\<close> is what a file opened with \<^verbatim>\<open>gzip.open(path, "rb")\<close>
    on the content \<open>raw\<close> gives to read: the data of all its members, or the
    exception raised. The library decompresses while the file is read; here the whole
    content is decompressed at the first read, so that a damaged member raises at the
    first read already.
\<close>

type_synonym bytes = string

record 'v codec =
  pickle_dump :: "'v \<Rightarrow> bytes \<times> exn option"
  pickle_load :: "bytes \<Rightarrow> ('v \<times> bytes) result"
  gzip_compress :: "bytes \<Rightarrow> bytes"
  gzip_decompress :: "bytes \<Rightarrow> bytes result"

text \<open>
  The contract of the libraries that the properties of the codec rest on:
  a pickle is read back from the front of a stream, whatever follows it; reading from
  an exhausted stream raises \<^verbatim>\<open>EOFError\<close>; an empty gzip file reads as no data; the
  members of a gzip file read as the concatenation of their data.
\<close>

definition serializable :: "'v codec \<Rightarrow> 'v \<Rightarrow> bool" where
  "serializable c v = (snd (pickle_dump c v) = None)"

definition codec_ok :: "'v codec \<Rightarrow> bool" where
  "codec_ok c \<longleftrightarrow>
     (\<forall>v rest. serializable c v \<longrightarrow>
        pickle_load c (fst (pickle_dump c v) @ rest) = Inr (v, rest)) \<and>
     pickle_load c [] = Inl EOFError \<and>
     gzip_decompress c [] = Inr [] \<and>
     (\<forall>data rest. gzip_decompress c (gzip_compress c data @ rest) =
        (case gzip_decompress c rest of Inl e \<Rightarrow> Inl e | Inr d \<Rightarrow> Inr (data @ d)))"

text \<open>The container that a successful \<^verbatim>\<open>save_object\<close> leaves in the file.\<close>

definition container :: "'v codec \<Rightarrow> 'v \<Rightarrow> bytes" where
  "container c v = gzip_compress c (fst (pickle_dump c v))"

text \<open>
  \<^verbatim>\<open>save_object\<close>: the file is opened at \<open>path\<close> itself in mode \<^verbatim>\<open>wb\<close>, the object
  is dumped into it, and leaving the \<^verbatim>\<open>with\<close> block closes it, also when the dump
  raised. \<open>save_object_states\<close> lists the states of the file system that the call goes
  through once the file is open: after the \<^verbatim>\<open>open\<close>, and after the close.
\<close>

definition save_object_states :: "'v codec \<Rightarrow> 'v \<Rightarrow> path \<Rightarrow> fs \<Rightarrow> fs list" where
  "save_object_states c obj path fs =
     (case open_w path fs of
        Inl e \<Rightarrow> []
      | Inr fs1 \<Rightarrow> [fs1, file_write path (container c obj) fs1])"

definition save_object :: "'v codec \<Rightarrow> 'v \<Rightarrow> path \<Rightarrow> fs \<Rightarrow> unit result \<times> fs" where
  "save_object c obj path fs =
     (case open_w path fs of
        Inl e \<Rightarrow> (Inl e, fs)
      | Inr fs1 \<Rightarrow>
          (case snd (pickle_dump c obj) of
             Some e \<Rightarrow> (Inl e, file_write path (container c obj) fs1)
           | None \<Rightarrow> (Inr (), file_write path (container c obj) fs1)))"

definition load_object :: "'v codec \<Rightarrow> path \<Rightarrow> fs \<Rightarrow> 'v result" where
  "load_object c path fs =
     (case open_r path fs of
        Inl e \<Rightarrow> Inl e
      | Inr raw \<Rightarrow>
          (case gzip_decompress c raw of
             Inl e \<Rightarrow> Inl e
           | Inr data \<Rightarrow>
               (case pickle_load c data of Inl e \<Rightarrow> Inl e | Inr (v, rest) \<Rightarrow> Inr v)))"

text \<open>
  \<^verbatim>\<open>load_objects\<close> is a generator. Calling it runs nothing; the first \<^verbatim>\<open>next\<close> opens
  the file and enters the loop \<^verbatim>\<open>while True: yield cloudpickle.load(file)\<close>. A
  \<^verbatim>\<open>next\<close> yields a value, or raises what \<^verbatim>\<open>gzip.open\<close> or \<^verbatim>\<open>cloudpickle.load\<close>
  raised, which finishes the generator; a finished generator raises
  \<^verbatim>\<open>StopIteration\<close>, the normal end of an iteration.
\<close>

datatype gen = Created path | Suspended bytes | Finished

datatype 'v step = Yield 'v | StopIteration | Raise exn

definition load_objects :: "path \<Rightarrow> gen" where
  "load_objects path = Created path"

definition loop_body :: "'v codec \<Rightarrow> bytes \<Rightarrow> 'v step \<times> gen" where
  "loop_body c data =
     (case pickle_load c data of
        Inl e \<Rightarrow> (Raise e, Finished)
      | Inr (v, rest) \<Rightarrow> (Yield v, Suspended rest))"

fun gen_next :: "'v codec \<Rightarrow> fs \<Rightarrow> gen \<Rightarrow> 'v step \<times> gen" where
  "gen_next c fs (Created path) =
     (case open_r path fs of
        Inl e \<Rightarrow> (Raise e, Finished)
      | Inr raw \<Rightarrow>
          (case gzip_decompress c raw of
             Inl e \<Rightarrow> (Raise e, Finished)
           | Inr data \<Rightarrow> loop_body c data))"
| "gen_next c fs (Suspended data) = loop_body c data"
| "gen_next c fs Finished = (StopIteration, Finished)"

text \<open>
  Iterating: \<^verbatim>\<open>next\<close> is called until the iteration ends, normally or with an
  exception. The result is the values yielded and how the iteration ended, \<open>None\<close>
  when it has not ended within \<open>fuel\<close> calls.
\<close>

datatype ending = Ended | Raised exn

fun iterate :: "'v codec \<Rightarrow> fs \<Rightarrow> nat \<Rightarrow> gen \<Rightarrow> 'v list \<times> ending option" where
  "iterate c fs 0 g = ([], None)"
| "iterate c fs (Suc fuel) g =
     (case gen_next c fs g of
        (Yield v, g') \<Rightarrow> (case iterate c fs fuel g' of (vs, r) \<Rightarrow> (v # vs, r))
      | (StopIteration, g') \<Rightarrow> ([], Some Ended)
      | (Raise e, g') \<Rightarrow> ([], Some (Raised e)))"

text \<open>The content of a file to which the containers of the values were written in turn.\<close>

definition frames :: "'v codec \<Rightarrow> 'v list \<Rightarrow> bytes" where
  "frames c vs = concat (map (container c) vs)"

subsection \<open>The inputs\<close>

text \<open>
  \<^verbatim>\<open>save_inputs\<close>: component \<open>k\<close> goes to
  \<^verbatim>\<open>base_path / f"{component}.{names.INPUT_EXT}"\<close>; \<^verbatim>\<open>enumerate\<close> counts from 0, and
  the loop ends at the first \<^verbatim>\<open>save_object\<close> that raises.
\<close>

definition input_path :: "path \<Rightarrow> nat \<Rightarrow> path" where
  "input_path map_dir component =
     path_join (path_join map_dir INPUTS_DIR) (py_str (int component) @ ''.'' @ INPUT_EXT)"

fun save_inputs_from :: "'v codec \<Rightarrow> path \<Rightarrow> nat \<Rightarrow> 'v list \<Rightarrow> fs \<Rightarrow> unit result \<times> fs" where
  "save_inputs_from c map_dir component [] fs = (Inr (), fs)"
| "save_inputs_from c map_dir component (a_and_k # rest) fs =
     (case save_object c a_and_k (input_path map_dir component) fs of
        (Inl e, fs') \<Rightarrow> (Inl e, fs')
      | (Inr _, fs') \<Rightarrow> save_inputs_from c map_dir (Suc component) rest fs')"

definition save_inputs :: "'v codec \<Rightarrow> path \<Rightarrow> 'v list \<Rightarrow> fs \<Rightarrow> unit result \<times> fs" where
  "save_inputs c map_dir args_and_kwargs fs = save_inputs_from c map_dir 0 args_and_kwargs fs"

subsection \<open>Concrete inputs\<close>

text \<open>
  A file system that holds the map directory \<^verbatim>\<open>m\<close> with its inputs directory and
  nothing else, and a small codec that keeps the contract: a natural number \<open>n\<close> is
  pickled as \<open>n\<close> letters \<^verbatim>\<open>I\<close> and a full stop, and compression stores the data as
  it is.
\<close>

definition fresh_fs :: fs where
  "fresh_fs = [[''m''] \<mapsto> Dir, [''m'', ''inputs''] \<mapsto> Dir]"

fun unary_load_from :: "nat \<Rightarrow> bytes \<Rightarrow> (nat \<times> bytes) result" where
  "unary_load_from k [] = Inl UnpicklingError"
| "unary_load_from k (b # bs) =
     (if b = CHR ''.'' then Inr (k, bs)
      else if b = CHR ''I'' then unary_load_from (Suc k) bs
      else Inl UnpicklingError)"

definition unary_codec :: "nat codec" where
  "unary_codec = \<lparr>
     pickle_dump = (\<lambda>n. (replicate n (CHR ''I'') @ ''.'', None)),
     pickle_load = (\<lambda>data. if data = [] then Inl EOFError else unary_load_from 0 data),
     gzip_compress = (\<lambda>data. data),
     gzip_decompress = (\<lambda>raw. Inr raw) \<rparr>"

subsection \<open>The item data: \<^verbatim>\<open>json.dump\<close> and \<^verbatim>\<open>json.load\<close>\<close>

text \<open>
  The Python values that \<^verbatim>\<open>json\<close> writes and reads back as they are: \<^verbatim>\<open>None\<close>,
  booleans, integers, strings, lists, and dictionaries with string keys. A dictionary is
  the list of its items in insertion order, which is the order in which \<^verbatim>\<open>json.dump\<close>
  writes them and \<^verbatim>\<open>json.load\<close> inserts them. Floats are not modelled.
\<close>

datatype pyval =
    PNone
  | PBool bool
  | PInt int
  | PStr string
  | PList "pyval list"
  | PDict "(string \<times> pyval) list"

text \<open>
  The keys of a dictionary are distinct, in every dictionary of a value.
\<close>

fun wf_val :: "pyval \<Rightarrow> bool"
  and wf_items :: "pyval list \<Rightarrow> bool"
  and wf_pairs :: "(string \<times> pyval) list \<Rightarrow> bool"
where
  "wf_val PNone = True"
| "wf_val (PBool b) = True"
| "wf_val (PInt i) = True"
| "wf_val (PStr s) = True"
| "wf_val (PList xs) = wf_items xs"
| "wf_val (PDict kvs) = (distinct (map fst kvs) \<and> wf_pairs kvs)"
| "wf_items [] = True"
| "wf_items (x # xs) = (wf_val x \<and> wf_items xs)"
| "wf_pairs [] = True"
| "wf_pairs ((k, v) # kvs) = (wf_val v \<and> wf_pairs kvs)"

text \<open>
  \<^verbatim>\<open>json.dump\<close> with the default \<^verbatim>\<open>ensure_ascii=True\<close>: in a string, the backslash,
  the double quote and the control characters with a short form are written with a
  backslash, the other characters from space to \<^verbatim>\<open>~\<close> as they are, and every other
  character as \<^verbatim>\<open>\u00xx\<close> with lower-case hexadecimal digits.
\<close>

definition hex_char :: "nat \<Rightarrow> char" where
  "hex_char n = (if n < 10 then char_of (48 + n) else char_of (87 + n))"

definition escape_char :: "char \<Rightarrow> string" where
  "escape_char c =
     (if c = CHR 0x5C then [CHR 0x5C, CHR 0x5C]
      else if c = CHR 0x22 then [CHR 0x5C, CHR 0x22]
      else if c = CHR 0x08 then [CHR 0x5C, CHR ''b'']
      else if c = CHR 0x0C then [CHR 0x5C, CHR ''f'']
      else if c = CHR 0x0A then [CHR 0x5C, CHR ''n'']
      else if c = CHR 0x0D then [CHR 0x5C, CHR ''r'']
      else if c = CHR 0x09 then [CHR 0x5C, CHR ''t'']
      else if 32 \<le> (of_char c :: nat) \<and> (of_char c :: nat) \<le> 126 then [c]
      else [CHR 0x5C, CHR ''u'', CHR ''0'', CHR ''0'',
            hex_char (of_char c div 16), hex_char (of_char c mod 16)])"

definition encode_str :: "string \<Rightarrow> string" where
  "encode_str s = CHR 0x22 # concat (map escape_char s) @ [CHR 0x22]"

text \<open>
  The encoder with \<^verbatim>\<open>indent=None\<close> and \<^verbatim>\<open>separators=(isep, ksep)\<close>: the items of a
  list or dictionary are joined by \<open>isep\<close>, a key and its value by \<open>ksep\<close>, and
  nothing else stands between the brackets.
\<close>

fun encode :: "string \<Rightarrow> string \<Rightarrow> pyval \<Rightarrow> string"
  and encode_items :: "string \<Rightarrow> string \<Rightarrow> pyval list \<Rightarrow> string"
  and encode_pairs :: "string \<Rightarrow> string \<Rightarrow> (string \<times> pyval) list \<Rightarrow> string"
where
  "encode isep ksep PNone = ''null''"
| "encode isep ksep (PBool b) = (if b then ''true'' else ''false'')"
| "encode isep ksep (PInt i) = py_str i"
| "encode isep ksep (PStr s) = encode_str s"
| "encode isep ksep (PList xs) = ''['' @ encode_items isep ksep xs @ '']''"
| "encode isep ksep (PDict kvs) = ''{'' @ encode_pairs isep ksep kvs @ ''}''"
| "encode_items isep ksep [] = []"
| "encode_items isep ksep [x] = encode isep ksep x"
| "encode_items isep ksep (x # y # ys) =
     encode isep ksep x @ isep @ encode_items isep ksep (y # ys)"
| "encode_pairs isep ksep [] = []"
| "encode_pairs isep ksep [(k, v)] = encode_str k @ ksep @ encode isep ksep v"
| "encode_pairs isep ksep ((k, v) # kv # kvs) =
     encode_str k @ ksep @ encode isep ksep v @ isep @ encode_pairs isep ksep (kv # kvs)"

text \<open>
  The decoder. A scan of a text gives a value and the text left, or raises, or gives
  no answer: where Python would build a float, or a character above 255, which the
  model of text does not hold, or where the fuel is used up. \<^verbatim>\<open>json.load\<close> skips the
  whitespace characters space, tab, line feed and carriage return between tokens.
\<close>

datatype 'a scan = Scanned 'a string | Fails exn | NoAnswer

definition is_json_ws :: "char \<Rightarrow> bool" where
  "is_json_ws c = (c = CHR '' '' \<or> c = CHR 0x09 \<or> c = CHR 0x0A \<or> c = CHR 0x0D)"

definition skip_ws :: "string \<Rightarrow> string" where
  "skip_ws s = dropWhile is_json_ws s"

text \<open>
  \<^verbatim>\<open>scanstring\<close> reads a string after its opening quote, up to the closing quote: a
  backslash starts an escape, \<^verbatim>\<open>\u\<close> takes four hexadecimal digits, and a control
  character below 32 is rejected (\<^verbatim>\<open>strict=True\<close>).
\<close>

definition hex_val :: "char \<Rightarrow> nat option" where
  "hex_val c = (let n = (of_char c :: nat) in
     if 48 \<le> n \<and> n \<le> 57 then Some (n - 48)
     else if 97 \<le> n \<and> n \<le> 102 then Some (n - 87)
     else if 65 \<le> n \<and> n \<le> 70 then Some (n - 55)
     else None)"

definition decode_u4 :: "char \<Rightarrow> char \<Rightarrow> char \<Rightarrow> char \<Rightarrow> nat option" where
  "decode_u4 a b c d =
     (case (hex_val a, hex_val b, hex_val c, hex_val d) of
        (Some x, Some y, Some z, Some w) \<Rightarrow> Some (((x * 16 + y) * 16 + z) * 16 + w)
      | _ \<Rightarrow> None)"

definition unescape :: "char \<Rightarrow> char option" where
  "unescape e =
     (if e = CHR 0x22 then Some (CHR 0x22)
      else if e = CHR 0x5C then Some (CHR 0x5C)
      else if e = CHR ''/'' then Some (CHR ''/'')
      else if e = CHR ''b'' then Some (CHR 0x08)
      else if e = CHR ''f'' then Some (CHR 0x0C)
      else if e = CHR ''n'' then Some (CHR 0x0A)
      else if e = CHR ''r'' then Some (CHR 0x0D)
      else if e = CHR ''t'' then Some (CHR 0x09)
      else None)"

definition scan_cons :: "char \<Rightarrow> string scan \<Rightarrow> string scan" where
  "scan_cons c r = (case r of Scanned s rest \<Rightarrow> Scanned (c # s) rest | Fails e \<Rightarrow> Fails e | NoAnswer \<Rightarrow> NoAnswer)"

fun scanstring :: "string \<Rightarrow> string scan" where
  "scanstring [] = Fails JSONDecodeError"
| "scanstring (c # cs) =
     (if c = CHR 0x22 then Scanned [] cs
      else if c = CHR 0x5C then
        (case cs of
           [] \<Rightarrow> Fails JSONDecodeError
         | e # es \<Rightarrow>
             if e = CHR ''u'' then
               (case es of
                  h1 # h2 # h3 # h4 # rest \<Rightarrow>
                    (case decode_u4 h1 h2 h3 h4 of
                       None \<Rightarrow> Fails JSONDecodeError
                     | Some n \<Rightarrow> if n < 256 then scan_cons (char_of n) (scanstring rest) else NoAnswer)
                | _ \<Rightarrow> Fails JSONDecodeError)
             else
               (case unescape e of
                  None \<Rightarrow> Fails JSONDecodeError
                | Some ch \<Rightarrow> scan_cons ch (scanstring es)))
      else if (of_char c :: nat) < 32 then Fails JSONDecodeError
      else scan_cons c (scanstring cs))"

text \<open>
  A number is an optional minus sign, then \<^verbatim>\<open>0\<close> or a digit from 1 to 9 followed by
  digits. When a fraction or an exponent follows, Python reads a float; so it does for
  \<^verbatim>\<open>NaN\<close>, \<^verbatim>\<open>Infinity\<close> and \<^verbatim>\<open>-Infinity\<close>.
\<close>

definition is_float_tail :: "string \<Rightarrow> bool" where
  "is_float_tail rest =
     (case rest of
        c # d # ds \<Rightarrow>
          (c = CHR ''.'' \<and> is_digit d) \<or>
          ((c = CHR ''e'' \<or> c = CHR ''E'') \<and>
             (is_digit d \<or>
              ((d = CHR ''+'' \<or> d = CHR ''-'') \<and> (case ds of [] \<Rightarrow> False | e # _ \<Rightarrow> is_digit e))))
      | _ \<Rightarrow> False)"

definition no_number :: "string \<Rightarrow> pyval scan" where
  "no_number s =
     (if take 3 s = ''NaN'' \<or> take 8 s = ''Infinity'' \<or> take 9 s = ''-Infinity'' then NoAnswer
      else Fails JSONDecodeError)"

definition scan_digits :: "bool \<Rightarrow> string \<Rightarrow> string \<Rightarrow> pyval scan" where
  "scan_digits neg ds rest =
     (if is_float_tail rest then NoAnswer
      else Scanned (PInt (if neg then - int (digits_value ds) else int (digits_value ds))) rest)"

definition scan_number :: "string \<Rightarrow> pyval scan" where
  "scan_number s =
     (let neg = (case s of [] \<Rightarrow> False | c # _ \<Rightarrow> c = CHR ''-'');
          t = (if neg then tl s else s)
      in case t of
           [] \<Rightarrow> no_number s
         | d # ds \<Rightarrow>
             if d = CHR ''0'' then scan_digits neg [d] ds
             else if is_digit d then
               scan_digits neg (d # takeWhile is_digit ds) (dropWhile is_digit ds)
             else no_number s)"

text \<open>
  The pairs of an object are inserted into a dictionary one after the other: a key that
  is there already keeps its place and takes the new value.
\<close>

fun dict_set :: "(string \<times> 'v) list \<Rightarrow> string \<Rightarrow> 'v \<Rightarrow> (string \<times> 'v) list" where
  "dict_set [] k v = [(k, v)]"
| "dict_set ((k', v') # d) k v =
     (if k' = k then (k', v) # d else (k', v') # dict_set d k v)"

definition dict_of :: "(string \<times> 'v) list \<Rightarrow> (string \<times> 'v) list" where
  "dict_of pairs = foldl (\<lambda>d (k, v). dict_set d k v) [] pairs"

text \<open>
  \<open>scan_once\<close> reads one value, \<open>array_loop\<close> the items of an array after its opening
  bracket, and \<open>object_loop\<close> the pairs of an object from the quote of a key on. Every
  call takes one unit of fuel.
\<close>

fun scan_once :: "nat \<Rightarrow> string \<Rightarrow> pyval scan"
  and array_loop :: "nat \<Rightarrow> string \<Rightarrow> pyval list scan"
  and object_loop :: "nat \<Rightarrow> string \<Rightarrow> (string \<times> pyval) list scan"
where
  "scan_once 0 s = NoAnswer"
| "scan_once (Suc n) [] = Fails JSONDecodeError"
| "scan_once (Suc n) (c # cs) =
     (if c = CHR 0x22 then
        (case scanstring cs of
           Scanned str rest \<Rightarrow> Scanned (PStr str) rest
         | Fails e \<Rightarrow> Fails e
         | NoAnswer \<Rightarrow> NoAnswer)
      else if c = CHR ''{'' then
        (case skip_ws cs of
           [] \<Rightarrow> Fails JSONDecodeError
         | d # ds \<Rightarrow>
             if d = CHR ''}'' then Scanned (PDict []) ds
             else
               (case object_loop n (d # ds) of
                  Scanned pairs rest \<Rightarrow> Scanned (PDict (dict_of pairs)) rest
                | Fails e \<Rightarrow> Fails e
                | NoAnswer \<Rightarrow> NoAnswer))
      else if c = CHR ''['' then
        (case skip_ws cs of
           [] \<Rightarrow> Fails JSONDecodeError
         | d # ds \<Rightarrow>
             if d = CHR '']'' then Scanned (PList []) ds
             else
               (case array_loop n (d # ds) of
                  Scanned values rest \<Rightarrow> Scanned (PList values) rest
                | Fails e \<Rightarrow> Fails e
                | NoAnswer \<Rightarrow> NoAnswer))
      else if c = CHR ''n'' \<and> take 3 cs = ''ull'' then Scanned PNone (drop 3 cs)
      else if c = CHR ''t'' \<and> take 3 cs = ''rue'' then Scanned (PBool True) (drop 3 cs)
      else if c = CHR ''f'' \<and> take 4 cs = ''alse'' then Scanned (PBool False) (drop 4 cs)
      else scan_number (c # cs))"
| "array_loop 0 s = NoAnswer"
| "array_loop (Suc n) s =
     (case scan_once n s of
        Fails e \<Rightarrow> Fails e
      | NoAnswer \<Rightarrow> NoAnswer
      | Scanned v r \<Rightarrow>
          (case skip_ws r of
             [] \<Rightarrow> Fails JSONDecodeError
           | d # ds \<Rightarrow>
               if d = CHR '']'' then Scanned [v] ds
               else if d \<noteq> CHR '','' then Fails JSONDecodeError
               else
                 (case array_loop n (skip_ws ds) of
                    Scanned vs rest \<Rightarrow> Scanned (v # vs) rest
                  | Fails e \<Rightarrow> Fails e
                  | NoAnswer \<Rightarrow> NoAnswer)))"
| "object_loop 0 s = NoAnswer"
| "object_loop (Suc n) [] = Fails JSONDecodeError"
| "object_loop (Suc n) (q # s) =
     (if q \<noteq> CHR 0x22 then Fails JSONDecodeError
      else
        (case scanstring s of
           Fails e \<Rightarrow> Fails e
         | NoAnswer \<Rightarrow> NoAnswer
         | Scanned key r \<Rightarrow>
             (case skip_ws r of
                [] \<Rightarrow> Fails JSONDecodeError
              | colon # r1 \<Rightarrow>
                  if colon \<noteq> CHR '':'' then Fails JSONDecodeError
                  else
                    (case scan_once n (skip_ws r1) of
                       Fails e \<Rightarrow> Fails e
                     | NoAnswer \<Rightarrow> NoAnswer
                     | Scanned v r2 \<Rightarrow>
                         (case skip_ws r2 of
                            [] \<Rightarrow> Fails JSONDecodeError
                          | d # ds \<Rightarrow>
                              if d = CHR ''}'' then Scanned [(key, v)] ds
                              else if d \<noteq> CHR '','' then Fails JSONDecodeError
                              else
                                (case object_loop n (skip_ws ds) of
                                   Scanned ps rest \<Rightarrow> Scanned ((key, v) # ps) rest
                                 | Fails e \<Rightarrow> Fails e
                                 | NoAnswer \<Rightarrow> NoAnswer))))))"

text \<open>
  \<^verbatim>\<open>json.loads\<close>: whitespace, one value, whitespace, and then the end of the text, or
  else \<^verbatim>\<open>JSONDecodeError\<close>. The length of the text is fuel enough for what
  \<^verbatim>\<open>json.dump\<close> has written.
\<close>

definition json_loads :: "string \<Rightarrow> pyval result option" where
  "json_loads s =
     (case scan_once (Suc (length s)) (skip_ws s) of
        Scanned v rest \<Rightarrow> if skip_ws rest = [] then Some (Inr v) else Some (Inl JSONDecodeError)
      | Fails e \<Rightarrow> Some (Inl e)
      | NoAnswer \<Rightarrow> None)"

text \<open>
  \<^verbatim>\<open>save_itemdata\<close> opens the file in mode \<^verbatim>\<open>w\<close> and dumps the list of dictionaries
  with \<^verbatim>\<open>indent=None\<close> and \<^verbatim>\<open>separators=(",", ":")\<close>; \<^verbatim>\<open>load_itemdata\<close> opens it in
  mode \<^verbatim>\<open>r\<close> and returns what \<^verbatim>\<open>json.load\<close> reads.
\<close>

definition itemdata_path :: "path \<Rightarrow> path" where
  "itemdata_path map_dir = path_join map_dir ITEMDATA"

definition save_itemdata :: "path \<Rightarrow> (string \<times> pyval) list list \<Rightarrow> fs \<Rightarrow> unit result \<times> fs" where
  "save_itemdata map_dir itemdata fs =
     (case open_w (itemdata_path map_dir) fs of
        Inl e \<Rightarrow> (Inl e, fs)
      | Inr fs1 \<Rightarrow>
          (Inr (), file_write (itemdata_path map_dir)
             (encode '','' '':'' (PList (map PDict itemdata))) fs1))"

definition load_itemdata :: "path \<Rightarrow> fs \<Rightarrow> pyval result option" where
  "load_itemdata map_dir fs =
     (case read_text (itemdata_path map_dir) fs of
        Inl e \<Rightarrow> Some (Inl e)
      | Inr s \<Rightarrow> json_loads s)"

text \<open>
  The number of space characters in the strings of a value, keys included; the texts
  after which a number ends; and the texts that start with a value or a key.
\<close>

definition count_spaces :: "string \<Rightarrow> nat" where
  "count_spaces s = length (filter (\<lambda>c. c = CHR '' '') s)"

fun spaces :: "pyval \<Rightarrow> nat"
  and spaces_items :: "pyval list \<Rightarrow> nat"
  and spaces_pairs :: "(string \<times> pyval) list \<Rightarrow> nat"
where
  "spaces PNone = 0"
| "spaces (PBool b) = 0"
| "spaces (PInt i) = 0"
| "spaces (PStr s) = count_spaces s"
| "spaces (PList xs) = spaces_items xs"
| "spaces (PDict kvs) = spaces_pairs kvs"
| "spaces_items [] = 0"
| "spaces_items (x # xs) = spaces x + spaces_items xs"
| "spaces_pairs [] = 0"
| "spaces_pairs ((k, v) # kvs) = count_spaces k + spaces v + spaces_pairs kvs"

definition delimited :: "string \<Rightarrow> bool" where
  "delimited rest = (case rest of [] \<Rightarrow> True | c # _ \<Rightarrow> c = CHR '','' \<or> c = CHR '']'' \<or> c = CHR ''}'')"

definition starts_value :: "string \<Rightarrow> bool" where
  "starts_value s = (case s of [] \<Rightarrow> False
     | c # _ \<Rightarrow> \<not> is_json_ws c \<and> c \<noteq> CHR '']'' \<and> c \<noteq> CHR ''}'')"

text \<open>Item data with a string that holds a space, an integer, and an empty dictionary.\<close>

definition example_itemdata :: "(string \<times> pyval) list list" where
  "example_itemdata = [[(''component'', PInt 0), (''args'', PStr ''a b'')], []]"

section \<open>Properties\<close>

subsection \<open>Text\<close>

lemma is_digit_digit_char: "d < 10 \<Longrightarrow> is_digit (digit_char d)"
  by (simp add: is_digit_def digit_char_def)

lemma digit_val_digit_char: "d < 10 \<Longrightarrow> digit_val (digit_char d) = d"
  by (simp add: digit_val_def digit_char_def)

lemma is_digit_not_space: "is_digit c \<Longrightarrow> \<not> is_space c"
  by (auto simp: is_digit_def is_space_def Let_def)

lemma is_digit_not_linebreak: "is_digit c \<Longrightarrow> \<not> is_linebreak c"
  by (auto simp: is_digit_def is_linebreak_def Let_def)

lemma is_digit_not_sign: "is_digit c \<Longrightarrow> c \<noteq> CHR ''-'' \<and> c \<noteq> CHR ''+'' \<and> c \<noteq> CHR 0x0D"
  by (auto simp: is_digit_def)

lemma minus_plain: "\<not> is_space (CHR ''-'') \<and> \<not> is_linebreak (CHR ''-'')"
  by (simp add: is_space_def is_linebreak_def)

lemma str_nat_digits: "c \<in> set (str_nat n) \<Longrightarrow> is_digit c"
proof (induction n rule: str_nat.induct)
  case (1 n)
  then show ?case
    by (subst (asm) (2) str_nat.simps) (auto simp: is_digit_digit_char split: if_splits)
qed

lemma str_nat_nonempty: "str_nat n \<noteq> []"
  by (subst str_nat.simps) simp

lemma digits_acc_all_digits:
  "\<forall>c \<in> set ds. is_digit c \<Longrightarrow>
   digits_acc acc ds = Some (foldl (\<lambda>a c. a * 10 + digit_val c) acc ds)"
  by (induction ds arbitrary: acc) auto

lemma parse_digits_all_digits:
  assumes "ds \<noteq> []" and "\<forall>c \<in> set ds. is_digit c"
  shows "parse_digits ds = Some (digits_value ds)"
proof (cases ds)
  case Nil
  with assms show ?thesis by simp
next
  case (Cons c cs)
  with assms show ?thesis
    by (simp add: parse_digits_def digits_value_def digits_acc_all_digits)
qed

lemma digits_value_str_nat: "digits_value (str_nat n) = n"
proof (induction n rule: str_nat.induct)
  case (1 n)
  show ?case
  proof (cases "n < 10")
    case True
    then show ?thesis
      by (subst str_nat.simps) (simp add: digits_value_def digit_val_digit_char)
  next
    case False
    with 1 have "digits_value (str_nat (n div 10)) = n div 10" by simp
    with False show ?thesis
      by (subst str_nat.simps) (simp add: digits_value_def digit_val_digit_char)
  qed
qed

lemma parse_digits_str_nat: "parse_digits (str_nat n) = Some n"
  using parse_digits_all_digits [of "str_nat n"] str_nat_digits [of _ n]
  by (simp add: str_nat_nonempty digits_value_str_nat)

lemma strip_no_space:
  assumes "\<forall>c \<in> set s. \<not> is_space c"
  shows "strip s = s"
proof -
  have dw: "dropWhile is_space t = t" if "\<forall>c \<in> set t. \<not> is_space c" for t
    using that by (cases t) auto
  from assms show ?thesis
    by (simp add: strip_def dw)
qed

lemma py_str_chars: "c \<in> set (py_str i) \<Longrightarrow> c = CHR ''-'' \<or> is_digit c"
  by (auto simp: py_str_def dest: str_nat_digits split: if_splits)

lemma py_str_plain:
  assumes "c \<in> set (py_str i)"
  shows "\<not> is_space c" and "\<not> is_linebreak c" and "c \<noteq> CHR 0x0D"
proof -
  from py_str_chars [OF assms] show "\<not> is_space c"
    using minus_plain is_digit_not_space by blast
  from py_str_chars [OF assms] show "\<not> is_linebreak c"
    using minus_plain is_digit_not_linebreak by blast
  from py_str_chars [OF assms] show "c \<noteq> CHR 0x0D"
    using is_digit_not_sign by fastforce
qed

lemma py_str_nonempty: "py_str i \<noteq> []"
  by (simp add: py_str_def str_nat_nonempty)

lemma strip_py_str: "strip (py_str i) = py_str i"
  by (rule strip_no_space) (simp add: py_str_plain(1))

lemma py_int_py_str: "py_int (py_str i) = Inr i"
proof (cases "i < 0")
  case True
  then show ?thesis
    by (simp add: py_int_def strip_py_str) (simp add: py_str_def parse_digits_str_nat)
next
  case False
  obtain c cs where cs: "str_nat (nat i) = c # cs"
    using str_nat_nonempty [of "nat i"] by (cases "str_nat (nat i)") auto
  then have "is_digit c"
    using str_nat_digits [of c "nat i"] by simp
  then have "c \<noteq> CHR ''-''" "c \<noteq> CHR ''+''"
    using is_digit_not_sign by blast+
  moreover have "parse_digits (c # cs) = Some (nat i)"
    using parse_digits_str_nat [of "nat i"] cs by simp
  ultimately show ?thesis
    using False cs by (simp add: py_int_def strip_py_str) (simp add: py_str_def)
qed

lemma py_str_inj:
  assumes "py_str i = py_str j"
  shows "i = j"
proof -
  have "(Inr i :: int result) = py_int (py_str i)"
    by (simp only: py_int_py_str)
  also have "\<dots> = py_int (py_str j)"
    by (simp only: assms)
  also have "\<dots> = Inr j"
    by (simp only: py_int_py_str)
  finally show ?thesis
    by (simp only: sum.inject)
qed

lemma universal_newlines_no_cr: "CHR 0x0D \<notin> set s \<Longrightarrow> universal_newlines s = s"
  by (induction s rule: universal_newlines.induct) auto

lemma universal_newlines_py_str: "universal_newlines (py_str i) = py_str i"
proof (rule universal_newlines_no_cr)
  show "CHR 0x0D \<notin> set (py_str i)"
  proof
    assume "CHR 0x0D \<in> set (py_str i)"
    from py_str_chars [OF this] show False
      by (simp add: is_digit_def)
  qed
qed

subsection \<open>Files\<close>

lemma butlast_path_join: "butlast (path_join p name) = p"
  by (simp add: path_join_def)

lemma open_w_ok:
  "fs (butlast p) = Some Dir \<Longrightarrow> fs p \<noteq> Some Dir \<Longrightarrow> open_w p fs = Inr (fs(p \<mapsto> File []))"
  by (auto simp: open_w_def open_check_def split: option.splits node.splits)

lemma write_text_ok:
  assumes "fs (butlast p) = Some Dir" and "fs p \<noteq> Some Dir"
  shows "write_text p s fs = (Inr (length s), fs(p \<mapsto> File s))"
  using assms by (simp add: write_text_def open_w_ok file_write_def)

lemma read_text_file: "fs p = Some (File c) \<Longrightarrow> read_text p fs = Inr (universal_newlines c)"
  by (simp add: read_text_def open_r_def)

lemma read_text_absent:
  "fs p = None \<Longrightarrow> fs (butlast p) = Some Dir \<Longrightarrow> read_text p fs = Inl FileNotFoundError"
  by (simp add: read_text_def open_r_def)

lemma save_num_components_ok:
  assumes "fs map_dir = Some Dir" and "fs (num_components_path map_dir) \<noteq> Some Dir"
  shows "save_num_components map_dir k fs =
    (Inr (), fs(num_components_path map_dir \<mapsto> File (py_str k)))"
  using assms
  by (simp add: save_num_components_def write_text_ok num_components_path_def butlast_path_join)

lemma load_num_components_file:
  "fs (num_components_path map_dir) = Some (File c) \<Longrightarrow>
   load_num_components map_dir fs = py_int (universal_newlines c)"
  by (simp add: load_num_components_def read_text_file)



text \<open>
  Claim C7. For every non-negative integer \<open>k\<close>, \<^verbatim>\<open>save_num_components(dir, k)\<close> and
  then \<^verbatim>\<open>load_num_components(dir)\<close> returns exactly \<open>k\<close>. Here for every integer, in a
  map directory that exists: the save succeeds and the load gives \<open>k\<close> back.
\<close>

theorem save_then_load_num_components:
  assumes "fs map_dir = Some Dir" and "fs (num_components_path map_dir) \<noteq> Some Dir"
  shows "fst (save_num_components map_dir k fs) = Inr () \<and>
         load_num_components map_dir (snd (save_num_components map_dir k fs)) = Inr k"
  using assms
  by (simp add: save_num_components_ok load_num_components_file universal_newlines_py_str
      py_int_py_str)

theorem save_then_load_num_components_witness:
  "fresh_fs [''m''] = Some Dir \<and> fresh_fs (num_components_path [''m'']) \<noteq> Some Dir \<and>
   fst (save_num_components [''m''] 12 fresh_fs) = Inr () \<and>
   load_num_components [''m''] (snd (save_num_components [''m''] 12 fresh_fs)) = Inr 12"
proof -
  have d: "fresh_fs [''m''] = Some Dir"
    by (simp add: fresh_fs_def)
  have f: "fresh_fs (num_components_path [''m'']) \<noteq> Some Dir"
    by (simp add: fresh_fs_def num_components_path_def path_join_def NUM_COMPONENTS_def)
  from save_then_load_num_components [OF d f, of 12] d f show ?thesis
    by simp
qed

text \<open>
  Claim C10. A second \<^verbatim>\<open>save_num_components\<close> on the same map directory overwrites
  the stored value without an error and without looking at the input component files:
  the load that follows returns the value saved last, and no other path of the file
  system has changed.
\<close>

theorem save_num_components_twice:
  assumes "fs map_dir = Some Dir" and "fs (num_components_path map_dir) \<noteq> Some Dir"
  shows "fst (save_num_components map_dir k2 (snd (save_num_components map_dir k1 fs))) = Inr () \<and>
         load_num_components map_dir
           (snd (save_num_components map_dir k2 (snd (save_num_components map_dir k1 fs)))) = Inr k2 \<and>
         (\<forall>p. p \<noteq> num_components_path map_dir \<longrightarrow>
            snd (save_num_components map_dir k2 (snd (save_num_components map_dir k1 fs))) p = fs p)"
proof -
  let ?p = "num_components_path map_dir"
  let ?fs1 = "fs(?p \<mapsto> File (py_str k1))"
  have ne: "?p \<noteq> map_dir"
    by (simp add: num_components_path_def path_join_def)
  have s1: "save_num_components map_dir k1 fs = (Inr (), ?fs1)"
    using assms by (rule save_num_components_ok)
  have d1: "?fs1 map_dir = Some Dir"
    using assms(1) ne by simp
  have f1: "?fs1 ?p \<noteq> Some Dir"
    by simp
  have s2: "save_num_components map_dir k2 ?fs1 = (Inr (), ?fs1(?p \<mapsto> File (py_str k2)))"
    using d1 f1 by (rule save_num_components_ok)
  show ?thesis
    by (simp add: s1 s2 load_num_components_file universal_newlines_py_str py_int_py_str)
qed

theorem save_num_components_twice_witness:
  "fresh_fs [''m''] = Some Dir \<and> fresh_fs (num_components_path [''m'']) \<noteq> Some Dir \<and>
   load_num_components [''m'']
     (snd (save_num_components [''m''] 7 (snd (save_num_components [''m''] 3 fresh_fs)))) = Inr 7 \<and>
   [''m'', ''inputs''] \<noteq> num_components_path [''m''] \<and>
   snd (save_num_components [''m''] 7 (snd (save_num_components [''m''] 3 fresh_fs)))
     [''m'', ''inputs''] = fresh_fs [''m'', ''inputs'']"
proof -
  have d: "fresh_fs [''m''] = Some Dir"
    by (simp add: fresh_fs_def)
  have f: "fresh_fs (num_components_path [''m'']) \<noteq> Some Dir"
    by (simp add: fresh_fs_def num_components_path_def path_join_def NUM_COMPONENTS_def)
  have n: "[''m'', ''inputs''] \<noteq> num_components_path [''m'']"
    by (simp add: num_components_path_def path_join_def NUM_COMPONENTS_def)
  from save_num_components_twice [OF d f, of 7 3] d f n show ?thesis
    by blast
qed




text \<open>
  Claim C3. \<^verbatim>\<open>load_cluster_ids\<close> on a map directory without cluster id file returns an
  empty sequence or a \<^verbatim>\<open>NotFoundError\<close>, not a low-level I/O error. On the map
  directory \<^verbatim>\<open>m\<close>, which has no such file, the call raises \<^verbatim>\<open>FileNotFoundError\<close>,
  the exception of the failed \<^verbatim>\<open>open\<close>.
\<close>

theorem load_cluster_ids_absent_counterexample:
  "fresh_fs (cluster_ids_path [''m'']) = None \<and>
   load_cluster_ids [''m''] fresh_fs = Inl FileNotFoundError \<and>
   load_cluster_ids [''m''] fresh_fs \<noteq> Inr [] \<and>
   load_cluster_ids [''m''] fresh_fs \<noteq> Inl NotFoundError"
  by (simp add: load_cluster_ids_def read_text_def open_r_def fresh_fs_def
      cluster_ids_path_def path_join_def CLUSTER_IDS_def)

text \<open>
  Claim C3, as the code has it: in a map directory that exists and has no cluster id
  file, \<^verbatim>\<open>load_cluster_ids\<close> raises \<^verbatim>\<open>FileNotFoundError\<close>.
\<close>

theorem load_cluster_ids_absent:
  assumes "fs map_dir = Some Dir" and "fs (cluster_ids_path map_dir) = None"
  shows "load_cluster_ids map_dir fs = Inl FileNotFoundError"
  using assms
  by (simp add: load_cluster_ids_def read_text_absent cluster_ids_path_def butlast_path_join)

theorem load_cluster_ids_absent_witness:
  "fresh_fs [''m''] = Some Dir \<and> fresh_fs (cluster_ids_path [''m'']) = None \<and>
   load_cluster_ids [''m''] fresh_fs = Inl FileNotFoundError"
proof -
  have d: "fresh_fs [''m''] = Some Dir"
    by (simp add: fresh_fs_def)
  have a: "fresh_fs (cluster_ids_path [''m'']) = None"
    by (simp add: fresh_fs_def cluster_ids_path_def path_join_def CLUSTER_IDS_def)
  from load_cluster_ids_absent [OF d a] d a show ?thesis
    by simp
qed

subsection \<open>The log\<close>

lemma splitlines_from_line:
  assumes "\<forall>c \<in> set s. \<not> is_linebreak c"
  shows "splitlines_from cur (s @ CHR 0x0A # rest) = (cur @ s) # splitlines_from [] rest"
  using assms
proof (induction s arbitrary: cur)
  case Nil
  then show ?case by (simp add: is_linebreak_def)
next
  case (Cons c s)
  then have "\<not> is_linebreak c" by simp
  then have "c \<noteq> CHR 0x0D" by (auto simp: is_linebreak_def)
  with Cons show ?case by simp
qed

lemma splitlines_log_text: "splitlines_from [] (log_text ids) = map py_str ids"
proof (induction ids)
  case Nil
  then show ?case by (simp add: log_text_def)
next
  case (Cons i ids)
  have "splitlines_from [] (py_str i @ CHR 0x0A # log_text ids)
      = ([] @ py_str i) # splitlines_from [] (log_text ids)"
    by (rule splitlines_from_line) (simp add: py_str_plain(2))
  with Cons show ?case by (simp add: log_text_def)
qed

lemma int_each_py_str: "int_each (map py_str ids) = Inr ids"
  by (induction ids) (simp_all add: strip_py_str py_int_py_str)

lemma log_text_no_cr: "CHR 0x0D \<notin> set (log_text ids)"
  using py_str_plain(3) by (auto simp: log_text_def)

lemma log_text_snoc: "log_text (ids @ [i]) = log_text ids @ py_str i @ [CHR 0x0A]"
  by (simp add: log_text_def)

lemma load_cluster_ids_log_text:
  assumes "fs (cluster_ids_path map_dir) = Some (File (log_text ids))"
  shows "load_cluster_ids map_dir fs = Inr ids"
  using assms
  by (simp add: load_cluster_ids_def read_text_file universal_newlines_no_cr log_text_no_cr
      splitlines_def splitlines_log_text int_each_py_str)

lemma append_cluster_id_file:
  assumes "fs map_dir = Some Dir" and "fs (cluster_ids_path map_dir) = Some (File c)"
  shows "append_cluster_id map_dir i fs =
    (Inr (), fs(cluster_ids_path map_dir \<mapsto> File (c @ py_str i @ [CHR 0x0A])))"
  using assms
  by (simp add: append_cluster_id_def open_a_def open_check_def file_write_def
      cluster_ids_path_def butlast_path_join)

lemma append_cluster_id_absent:
  assumes "fs map_dir = Some Dir" and "fs (cluster_ids_path map_dir) = None"
  shows "append_cluster_id map_dir i fs =
    (Inr (), fs(cluster_ids_path map_dir \<mapsto> File (py_str i @ [CHR 0x0A])))"
  using assms
  by (simp add: append_cluster_id_def open_a_def open_check_def file_write_def
      cluster_ids_path_def butlast_path_join)

lemma append_each_file:
  assumes "fs map_dir = Some Dir" and "fs (cluster_ids_path map_dir) = Some (File c)"
  shows "append_each map_dir ids fs =
    (Inr (), fs(cluster_ids_path map_dir \<mapsto> File (c @ log_text ids)))"
  using assms
proof (induction ids arbitrary: fs c)
  case Nil
  then show ?case by (simp add: log_text_def fun_upd_idem)
next
  case (Cons i ids)
  let ?p = "cluster_ids_path map_dir"
  let ?fs1 = "fs(?p \<mapsto> File (c @ py_str i @ [CHR 0x0A]))"
  have ne: "?p \<noteq> map_dir"
    by (simp add: cluster_ids_path_def path_join_def)
  have s: "append_cluster_id map_dir i fs = (Inr (), ?fs1)"
    using Cons.prems by (rule append_cluster_id_file)
  have "?fs1 map_dir = Some Dir"
    using Cons.prems(1) ne by simp
  moreover have "?fs1 ?p = Some (File (c @ py_str i @ [CHR 0x0A]))"
    by simp
  ultimately have ih: "append_each map_dir ids ?fs1 =
      (Inr (), ?fs1(?p \<mapsto> File ((c @ py_str i @ [CHR 0x0A]) @ log_text ids)))"
    by (rule Cons.IH)
  have u: "?fs1(?p \<mapsto> File ((c @ py_str i @ [CHR 0x0A]) @ log_text ids))
      = fs(?p \<mapsto> File (c @ log_text (i # ids)))"
    by (simp add: log_text_def)
  have "append_each map_dir (i # ids) fs = append_each map_dir ids ?fs1"
    by (simp add: s)
  then show ?case
    by (simp only: ih u)
qed

text \<open>
  Claim C6. After the cluster ids of a finite sequence were appended one at a time,
  \<^verbatim>\<open>load_cluster_ids\<close> returns exactly that sequence in the same order, and an append
  adds a line and leaves what the file held in place. Here from a map directory whose
  log does not exist yet (and at least one append), or whose log holds the ids \<open>old\<close>
  of earlier appends: every append succeeds, the load returns \<open>old @ ids\<close>, and one
  append to a file with content \<open>c\<close> leaves \<open>c\<close> followed by the new line.
\<close>

theorem append_then_load_cluster_ids:
  assumes "fs map_dir = Some Dir"
    and "fs (cluster_ids_path map_dir) = None \<and> old = [] \<and> ids \<noteq> [] \<or>
         fs (cluster_ids_path map_dir) = Some (File (log_text old))"
  shows "fst (append_each map_dir ids fs) = Inr () \<and>
         load_cluster_ids map_dir (snd (append_each map_dir ids fs)) = Inr (old @ ids) \<and>
         (\<forall>c i. fs (cluster_ids_path map_dir) = Some (File c) \<longrightarrow>
            snd (append_cluster_id map_dir i fs) (cluster_ids_path map_dir)
              = Some (File (c @ py_str i @ [CHR 0x0A])))"
proof -
  let ?p = "cluster_ids_path map_dir"
  have ne: "?p \<noteq> map_dir"
    by (simp add: cluster_ids_path_def path_join_def)
  have run: "append_each map_dir ids fs = (Inr (), fs(?p \<mapsto> File (log_text (old @ ids))))"
  proof (cases "fs ?p")
    case None
    with assms(2) obtain i rest where ids: "ids = i # rest" and old: "old = []"
      by (cases ids) auto
    let ?fs1 = "fs(?p \<mapsto> File (py_str i @ [CHR 0x0A]))"
    have s: "append_cluster_id map_dir i fs = (Inr (), ?fs1)"
      using assms(1) None by (rule append_cluster_id_absent)
    have "?fs1 map_dir = Some Dir"
      using assms(1) ne by simp
    moreover have "?fs1 ?p = Some (File (py_str i @ [CHR 0x0A]))"
      by simp
    ultimately have r: "append_each map_dir rest ?fs1 =
        (Inr (), ?fs1(?p \<mapsto> File ((py_str i @ [CHR 0x0A]) @ log_text rest)))"
      by (rule append_each_file)
    have u: "?fs1(?p \<mapsto> File ((py_str i @ [CHR 0x0A]) @ log_text rest))
        = fs(?p \<mapsto> File (log_text (old @ ids)))"
      by (simp add: log_text_def ids old)
    have "append_each map_dir ids fs = append_each map_dir rest ?fs1"
      by (simp add: ids s)
    then show ?thesis
      by (simp only: r u)
  next
    case (Some nd)
    with assms(2) have f: "fs ?p = Some (File (log_text old))"
      by auto
    have "append_each map_dir ids fs = (Inr (), fs(?p \<mapsto> File (log_text old @ log_text ids)))"
      using assms(1) f by (rule append_each_file)
    then show ?thesis
      by (simp add: log_text_def)
  qed
  have "load_cluster_ids map_dir (fs(?p \<mapsto> File (log_text (old @ ids)))) = Inr (old @ ids)"
    by (rule load_cluster_ids_log_text) simp
  moreover have "snd (append_cluster_id map_dir i fs) ?p = Some (File (c @ py_str i @ [CHR 0x0A]))"
    if "fs ?p = Some (File c)" for c i
    using assms(1) that by (simp add: append_cluster_id_file)
  ultimately show ?thesis
    by (simp add: run)
qed

theorem append_then_load_cluster_ids_witness:
  "fresh_fs [''m''] = Some Dir \<and> fresh_fs (cluster_ids_path [''m'']) = None \<and>
   load_cluster_ids [''m''] (snd (append_each [''m''] [5, 17, 9] fresh_fs)) = Inr [5, 17, 9] \<and>
   (fresh_fs(cluster_ids_path [''m''] \<mapsto> File (log_text [5]))) (cluster_ids_path [''m''])
     = Some (File (log_text [5])) \<and>
   load_cluster_ids [''m'']
     (snd (append_each [''m''] [17, 9] (fresh_fs(cluster_ids_path [''m''] \<mapsto> File (log_text [5])))))
     = Inr [5, 17, 9] \<and>
   snd (append_cluster_id [''m''] 17 (fresh_fs(cluster_ids_path [''m''] \<mapsto> File (log_text [5]))))
     (cluster_ids_path [''m'']) = Some (File (log_text [5] @ py_str 17 @ [CHR 0x0A]))"
proof -
  let ?p = "cluster_ids_path [''m'']"
  let ?fs = "fresh_fs(?p \<mapsto> File (log_text [5]))"
  have p: "?p = [''m'', ''cluster_ids'']"
    by (simp add: cluster_ids_path_def path_join_def CLUSTER_IDS_def)
  have d: "fresh_fs [''m''] = Some Dir" and a: "fresh_fs ?p = None"
    by (simp_all add: fresh_fs_def p)
  have d': "?fs [''m''] = Some Dir"
    by (simp add: fresh_fs_def p)
  have f': "?fs ?p = Some (File (log_text [5]))"
    by simp
  have h1: "fresh_fs ?p = None \<and> ([]::int list) = [] \<and> [5, 17, 9] \<noteq> ([]::int list) \<or>
      fresh_fs ?p = Some (File (log_text []))"
    using a by simp
  have h2: "?fs ?p = None \<and> [5] = ([]::int list) \<and> [17, 9] \<noteq> ([]::int list) \<or>
      ?fs ?p = Some (File (log_text [5]))"
    using f' by simp
  have r1: "load_cluster_ids [''m''] (snd (append_each [''m''] [5, 17, 9] fresh_fs))
      = Inr ([] @ [5, 17, 9])"
    using append_then_load_cluster_ids [OF d h1] by blast
  have r2: "load_cluster_ids [''m''] (snd (append_each [''m''] [17, 9] ?fs)) = Inr ([5] @ [17, 9])"
    using append_then_load_cluster_ids [OF d' h2] by blast
  have r3: "snd (append_cluster_id [''m''] 17 ?fs) ?p
      = Some (File (log_text [5] @ py_str 17 @ [CHR 0x0A]))"
    using append_then_load_cluster_ids [OF d' h2] f' by blast
  have e1: "[] @ [5, 17, 9] = [5, 17, 9 :: int]" and e2: "[5] @ [17, 9] = [5, 17, 9 :: int]"
    by simp_all
  from r1 r2 r3 d a f' show ?thesis
    unfolding e1 e2 by blast
qed

subsection \<open>The object codec\<close>

lemma unary_load_from_dump:
  "unary_load_from k (replicate n (CHR ''I'') @ CHR ''.'' # rest) = Inr (k + n, rest)"
  by (induction n arbitrary: k) simp_all

lemma unary_codec_ok: "codec_ok unary_codec"
  using unary_load_from_dump [of 0]
  by (simp add: codec_ok_def unary_codec_def serializable_def)

lemma unary_serializable: "serializable unary_codec n"
  by (simp add: serializable_def unary_codec_def)

lemma gzip_roundtrip:
  assumes "codec_ok c"
  shows "gzip_decompress c (gzip_compress c data) = Inr data"
proof -
  from assms have e: "gzip_decompress c [] = Inr []"
    and m: "gzip_decompress c (gzip_compress c data @ []) =
      (case gzip_decompress c [] of Inl e \<Rightarrow> Inl e | Inr d \<Rightarrow> Inr (data @ d))"
    unfolding codec_ok_def by blast+
  from m show ?thesis
    by (simp add: e)
qed

lemma pickle_roundtrip:
  assumes "codec_ok c" and "serializable c v"
  shows "pickle_load c (fst (pickle_dump c v) @ rest) = Inr (v, rest)"
  using assms unfolding codec_ok_def by blast

lemma pickle_load_empty: "codec_ok c \<Longrightarrow> pickle_load c [] = Inl EOFError"
  unfolding codec_ok_def by blast

lemma save_object_ok:
  assumes "fs (butlast path) = Some Dir" and "fs path \<noteq> Some Dir" and "serializable c v"
  shows "save_object c v path fs = (Inr (), fs(path \<mapsto> File (container c v)))"
  using assms
  by (simp add: save_object_def open_w_ok file_write_def serializable_def)

lemma load_object_container:
  assumes "codec_ok c" and "serializable c v" and "fs path = Some (File (container c v))"
  shows "load_object c path fs = Inr v"
proof -
  have "pickle_load c (fst (pickle_dump c v)) = Inr (v, [])"
    using pickle_roundtrip [OF assms(1,2), of "[]"] by simp
  then show ?thesis
    using assms(3) by (simp add: load_object_def open_r_def container_def gzip_roundtrip [OF assms(1)])
qed

lemma load_object_empty_file:
  assumes "codec_ok c" and "fs path = Some (File [])"
  shows "load_object c path fs = Inl EOFError"
proof -
  from assms(1) have "gzip_decompress c [] = Inr []"
    unfolding codec_ok_def by blast
  then show ?thesis
    using assms(2) by (simp add: load_object_def open_r_def pickle_load_empty [OF assms(1)])
qed

text \<open>
  Claim C1. For every serializable value \<open>v\<close>, \<^verbatim>\<open>save_object(v, path)\<close> and then
  \<^verbatim>\<open>load_object(path)\<close> returns a value equivalent to \<open>v\<close>. Here for a codec that
  keeps the contract of the libraries and a path in a directory that exists: the save
  succeeds and the load returns \<open>v\<close> itself (equality of functions in HOL is equality
  of behaviour, so a type of values with closures is covered).
\<close>

theorem save_then_load_object:
  assumes "codec_ok c" and "serializable c v"
    and "fs (butlast path) = Some Dir" and "fs path \<noteq> Some Dir"
  shows "fst (save_object c v path fs) = Inr () \<and>
         load_object c path (snd (save_object c v path fs)) = Inr v"
proof -
  have s: "save_object c v path fs = (Inr (), fs(path \<mapsto> File (container c v)))"
    using assms(3,4,2) by (rule save_object_ok)
  have "load_object c path (fs(path \<mapsto> File (container c v))) = Inr v"
    using assms(1,2) by (rule load_object_container) simp
  with s show ?thesis
    by simp
qed

theorem save_then_load_object_witness:
  "codec_ok unary_codec \<and> serializable unary_codec 3 \<and>
   fresh_fs (butlast [''m'', ''func'']) = Some Dir \<and> fresh_fs [''m'', ''func''] \<noteq> Some Dir \<and>
   fst (save_object unary_codec 3 [''m'', ''func''] fresh_fs) = Inr () \<and>
   load_object unary_codec [''m'', ''func''] (snd (save_object unary_codec 3 [''m'', ''func''] fresh_fs))
     = Inr 3"
proof -
  have d: "fresh_fs (butlast [''m'', ''func'']) = Some Dir"
    and f: "fresh_fs [''m'', ''func''] \<noteq> Some Dir"
    by (simp_all add: fresh_fs_def)
  from save_then_load_object [OF unary_codec_ok unary_serializable d f] unary_codec_ok
    unary_serializable d f
  show ?thesis
    by blast
qed

text \<open>
  Claim C5. The write of \<^verbatim>\<open>save_object\<close> is atomic for a reader: at every moment the
  target path holds no file or a complete, valid container. The function opens the
  target path itself, so the first state after the \<^verbatim>\<open>open\<close> holds an empty file there,
  which is no container: \<^verbatim>\<open>load_object\<close> raises \<^verbatim>\<open>EOFError\<close> on it.
\<close>

theorem save_object_states_counterexample:
  "save_object_states unary_codec 3 [''m'', ''func''] fresh_fs \<noteq> [] \<and>
   hd (save_object_states unary_codec 3 [''m'', ''func''] fresh_fs) [''m'', ''func''] = Some (File []) \<and>
   load_object unary_codec [''m'', ''func'']
     (hd (save_object_states unary_codec 3 [''m'', ''func''] fresh_fs)) = Inl EOFError"
  by (simp add: save_object_states_def open_w_def open_check_def fresh_fs_def load_object_def
      open_r_def unary_codec_def)

text \<open>
  Claim C5, as the code has it: a successful \<^verbatim>\<open>save_object\<close> goes through a state in
  which the target path holds an empty file, on which \<^verbatim>\<open>load_object\<close> raises
  \<^verbatim>\<open>EOFError\<close>, and ends in a state in which the path holds the complete container,
  which \<^verbatim>\<open>load_object\<close> reads back.
\<close>

theorem save_object_states_visible:
  assumes "codec_ok c" and "serializable c v"
    and "fs (butlast path) = Some Dir" and "fs path \<noteq> Some Dir"
  shows "save_object_states c v path fs = [fs(path \<mapsto> File []), snd (save_object c v path fs)] \<and>
         load_object c path (fs(path \<mapsto> File [])) = Inl EOFError \<and>
         load_object c path (snd (save_object c v path fs)) = Inr v"
proof -
  have s: "save_object c v path fs = (Inr (), fs(path \<mapsto> File (container c v)))"
    using assms(3,4,2) by (rule save_object_ok)
  have t: "save_object_states c v path fs =
      [fs(path \<mapsto> File []), fs(path \<mapsto> File (container c v))]"
    using assms(3,4) by (simp add: save_object_states_def open_w_ok file_write_def)
  have e: "load_object c path (fs(path \<mapsto> File [])) = Inl EOFError"
    using assms(1) by (rule load_object_empty_file) simp
  have l: "load_object c path (fs(path \<mapsto> File (container c v))) = Inr v"
    using assms(1,2) by (rule load_object_container) simp
  from s t e l show ?thesis
    by simp
qed

theorem save_object_states_visible_witness:
  "codec_ok unary_codec \<and> serializable unary_codec 3 \<and>
   fresh_fs (butlast [''m'', ''func'']) = Some Dir \<and> fresh_fs [''m'', ''func''] \<noteq> Some Dir \<and>
   save_object_states unary_codec 3 [''m'', ''func''] fresh_fs =
     [fresh_fs([''m'', ''func''] \<mapsto> File []),
      snd (save_object unary_codec 3 [''m'', ''func''] fresh_fs)] \<and>
   load_object unary_codec [''m'', ''func''] (fresh_fs([''m'', ''func''] \<mapsto> File [])) = Inl EOFError"
proof -
  have d: "fresh_fs (butlast [''m'', ''func'']) = Some Dir"
    and f: "fresh_fs [''m'', ''func''] \<noteq> Some Dir"
    by (simp_all add: fresh_fs_def)
  from save_object_states_visible [OF unary_codec_ok unary_serializable d f] unary_codec_ok
    unary_serializable d f
  show ?thesis
    by blast
qed

subsection \<open>The stream of objects\<close>

lemma gzip_frames:
  assumes "codec_ok c"
  shows "gzip_decompress c (frames c vs) = Inr (concat (map (\<lambda>v. fst (pickle_dump c v)) vs))"
proof (induction vs)
  case Nil
  from assms show ?case
    unfolding codec_ok_def frames_def by simp
next
  case (Cons v vs)
  from assms have "gzip_decompress c (gzip_compress c (fst (pickle_dump c v)) @ frames c vs) =
      (case gzip_decompress c (frames c vs) of
         Inl e \<Rightarrow> Inl e | Inr d \<Rightarrow> Inr (fst (pickle_dump c v) @ d))"
    unfolding codec_ok_def by blast
  with Cons show ?case
    by (simp add: frames_def container_def)
qed

lemma iterate_pickles:
  assumes "codec_ok c" and "\<forall>v \<in> set vs. serializable c v" and "length vs < fuel"
  shows "iterate c fs fuel (Suspended (concat (map (\<lambda>v. fst (pickle_dump c v)) vs)))
    = (vs, Some (Raised EOFError))"
  using assms(2,3)
proof (induction vs arbitrary: fuel)
  case Nil
  then obtain n where "fuel = Suc n"
    by (cases fuel) auto
  then show ?case
    by (simp add: loop_body_def pickle_load_empty [OF assms(1)])
next
  case (Cons v vs)
  then obtain n where n: "fuel = Suc n" and "length vs < n"
    by (cases fuel) auto
  with Cons have ih: "iterate c fs n (Suspended (concat (map (\<lambda>v. fst (pickle_dump c v)) vs)))
      = (vs, Some (Raised EOFError))"
    by simp
  from Cons.prems have "serializable c v"
    by simp
  then have "pickle_load c (fst (pickle_dump c v) @ concat (map (\<lambda>v. fst (pickle_dump c v)) vs))
      = Inr (v, concat (map (\<lambda>v. fst (pickle_dump c v)) vs))"
    by (rule pickle_roundtrip [OF assms(1)])
  then show ?case
    by (simp add: n loop_body_def ih)
qed

lemma iterate_created:
  assumes "fs path = Some (File raw)" and "gzip_decompress c raw = Inr data"
  shows "iterate c fs fuel (Created path) = iterate c fs fuel (Suspended data)"
  using assms by (cases fuel) (simp_all add: open_r_def)

text \<open>
  Claim C2. For values written as successive frames to one path, iterating
  \<^verbatim>\<open>load_objects(path)\<close> yields exactly these values in order, and then the iteration
  ends normally, not with an error. On a file with the frames of 1 and 2 the iteration
  yields 1 and 2 and then raises \<^verbatim>\<open>EOFError\<close>.
\<close>

theorem load_objects_counterexample:
  "iterate unary_codec (fresh_fs([''m'', ''out''] \<mapsto> File (frames unary_codec [1, 2]))) 5
     (load_objects [''m'', ''out'']) = ([1, 2], Some (Raised EOFError)) \<and>
   iterate unary_codec (fresh_fs([''m'', ''out''] \<mapsto> File (frames unary_codec [1, 2]))) 5
     (load_objects [''m'', ''out'']) \<noteq> ([1, 2], Some Ended)"
  by code_simp

text \<open>
  Claim C2, as the code has it: on a file that holds the frames of the values \<open>vs\<close>,
  iterating \<^verbatim>\<open>load_objects(path)\<close> yields exactly \<open>vs\<close> in order, and the \<^verbatim>\<open>next\<close> after
  the last value raises \<^verbatim>\<open>EOFError\<close>; the iteration has ended after at most
  \<open>length vs + 1\<close> calls.
\<close>

theorem load_objects_yields_then_raises:
  assumes "codec_ok c" and "\<forall>v \<in> set vs. serializable c v"
    and "fs path = Some (File (frames c vs))" and "length vs < fuel"
  shows "iterate c fs fuel (load_objects path) = (vs, Some (Raised EOFError))"
proof -
  have "iterate c fs fuel (Created path)
      = iterate c fs fuel (Suspended (concat (map (\<lambda>v. fst (pickle_dump c v)) vs)))"
    using assms(3) gzip_frames [OF assms(1)] by (rule iterate_created)
  also have "\<dots> = (vs, Some (Raised EOFError))"
    using assms(1,2,4) by (rule iterate_pickles)
  finally show ?thesis
    by (simp add: load_objects_def)
qed

theorem load_objects_yields_then_raises_witness:
  "codec_ok unary_codec \<and> serializable unary_codec 1 \<and> serializable unary_codec 2 \<and>
   (fresh_fs([''m'', ''out''] \<mapsto> File (frames unary_codec [1, 2]))) [''m'', ''out'']
     = Some (File (frames unary_codec [1, 2])) \<and>
   length [1, 2 :: nat] < 3 \<and>
   iterate unary_codec (fresh_fs([''m'', ''out''] \<mapsto> File (frames unary_codec [1, 2]))) 3
     (load_objects [''m'', ''out'']) = ([1, 2], Some (Raised EOFError))"
proof -
  have s: "\<forall>v \<in> set [1, 2]. serializable unary_codec v"
    by (simp add: unary_serializable)
  have f: "(fresh_fs([''m'', ''out''] \<mapsto> File (frames unary_codec [1, 2]))) [''m'', ''out'']
      = Some (File (frames unary_codec [1, 2]))"
    by simp
  have l: "length [1, 2 :: nat] < 3"
    by simp
  from load_objects_yields_then_raises
    [where fs = "fresh_fs([''m'', ''out''] \<mapsto> File (frames unary_codec [1, 2]))"
      and path = "[''m'', ''out'']", OF unary_codec_ok s f l]
    unary_codec_ok unary_serializable f l
  show ?thesis
    by blast
qed

subsection \<open>The inputs\<close>

lemma input_path_inj: "input_path map_dir i = input_path map_dir j \<Longrightarrow> i = j"
proof -
  assume "input_path map_dir i = input_path map_dir j"
  then have "py_str (int i) = py_str (int j)"
    by (simp add: input_path_def path_join_def)
  then have "int i = int j"
    by (rule py_str_inj)
  then show "i = j"
    by simp
qed

lemma input_path_parent: "butlast (input_path map_dir i) = path_join map_dir INPUTS_DIR"
  by (simp add: input_path_def butlast_path_join)

lemma input_path_not_parent: "input_path map_dir i \<noteq> path_join map_dir INPUTS_DIR"
  by (simp add: input_path_def path_join_def)

lemma save_inputs_from_ok:
  assumes "fs (path_join map_dir INPUTS_DIR) = Some Dir"
    and "\<forall>i < length args. fs (input_path map_dir (k + i)) \<noteq> Some Dir"
    and "\<forall>a \<in> set args. serializable c a"
  shows "fst (save_inputs_from c map_dir k args fs) = Inr () \<and>
         (\<forall>i < length args. snd (save_inputs_from c map_dir k args fs) (input_path map_dir (k + i))
            = Some (File (container c (args ! i)))) \<and>
         (\<forall>p. (\<forall>i < length args. p \<noteq> input_path map_dir (k + i)) \<longrightarrow>
            snd (save_inputs_from c map_dir k args fs) p = fs p)"
  using assms
proof (induction args arbitrary: k fs)
  case Nil
  then show ?case by simp
next
  case (Cons a args)
  let ?p = "input_path map_dir k"
  let ?fs1 = "fs(?p \<mapsto> File (container c a))"
  let ?r = "save_inputs_from c map_dir (Suc k) args ?fs1"
  have nd: "fs ?p \<noteq> Some Dir"
    using Cons.prems(2) by force
  have s: "save_object c a ?p fs = (Inr (), ?fs1)"
    using Cons.prems(1,3) nd by (intro save_object_ok) (simp_all add: input_path_parent)
  have step: "save_inputs_from c map_dir k (a # args) fs = ?r"
    by (simp add: s)
  have d1: "?fs1 (path_join map_dir INPUTS_DIR) = Some Dir"
    using Cons.prems(1) input_path_not_parent [of map_dir k] by (simp add: fun_upd_def)
  have n1: "\<forall>i < length args. ?fs1 (input_path map_dir (Suc k + i)) \<noteq> Some Dir"
  proof (intro allI impI)
    fix i assume "i < length args"
    then have "fs (input_path map_dir (k + Suc i)) \<noteq> Some Dir"
      using Cons.prems(2) by force
    then show "?fs1 (input_path map_dir (Suc k + i)) \<noteq> Some Dir"
      by (simp add: fun_upd_def)
  qed
  have s1: "\<forall>a \<in> set args. serializable c a"
    using Cons.prems(3) by simp
  note ih = Cons.IH [OF d1 n1 s1]
  have a1: "fst ?r = Inr ()"
    using ih by blast
  have a2: "snd ?r (input_path map_dir (Suc k + i)) = Some (File (container c (args ! i)))"
    if "i < length args" for i
    using ih that by blast
  have a3: "snd ?r p = ?fs1 p" if "\<forall>i < length args. p \<noteq> input_path map_dir (Suc k + i)" for p
    using ih that by blast
  have b2: "snd ?r (input_path map_dir (k + i)) = Some (File (container c ((a # args) ! i)))"
    if "i < length (a # args)" for i
  proof (cases i)
    case 0
    have "\<forall>j < length args. ?p \<noteq> input_path map_dir (Suc k + j)"
      using input_path_inj [of map_dir k] by fastforce
    then have "snd ?r ?p = ?fs1 ?p"
      by (rule a3)
    with 0 show ?thesis
      by simp
  next
    case (Suc j)
    with that have "j < length args"
      by simp
    then have "snd ?r (input_path map_dir (Suc k + j)) = Some (File (container c (args ! j)))"
      by (rule a2)
    with Suc show ?thesis
      by simp
  qed
  have b3: "snd ?r p = fs p" if h: "\<forall>i < length (a # args). p \<noteq> input_path map_dir (k + i)" for p
  proof -
    from h have "p \<noteq> ?p"
      by force
    moreover have "\<forall>i < length args. p \<noteq> input_path map_dir (Suc k + i)"
    proof (intro allI impI)
      fix i assume "i < length args"
      then have "Suc i < length (a # args)"
        by simp
      with h have "p \<noteq> input_path map_dir (k + Suc i)"
        by blast
      then show "p \<noteq> input_path map_dir (Suc k + i)"
        by simp
    qed
    then have "snd ?r p = ?fs1 p"
      by (rule a3)
    ultimately show ?thesis
      by simp
  qed
  show ?case
    unfolding step using a1 b2 b3 by blast
qed

text \<open>
  Claim C8. For \<open>n\<close> argument pairs, \<^verbatim>\<open>save_inputs\<close> writes exactly \<open>n\<close> input
  component files, one per pair in iteration order, at the paths
  \<^verbatim>\<open>inputs/<index>.<extension>\<close> with the indices 0 to \<open>n - 1\<close>, and nothing else. Here
  for serializable pairs and an inputs directory that exists: the call succeeds, path
  \<open>i\<close> holds the container of pair \<open>i\<close>, every other path is as before, the \<open>n\<close>
  paths are distinct, and path \<open>i\<close> is the map directory followed by the inputs
  directory and the decimal index, a full stop and the extension.
\<close>

theorem save_inputs_files:
  assumes "fs (path_join map_dir INPUTS_DIR) = Some Dir"
    and "\<forall>i < length args. fs (input_path map_dir i) \<noteq> Some Dir"
    and "\<forall>a \<in> set args. serializable c a"
  shows "fst (save_inputs c map_dir args fs) = Inr () \<and>
         (\<forall>i < length args. snd (save_inputs c map_dir args fs) (input_path map_dir i)
            = Some (File (container c (args ! i)))) \<and>
         (\<forall>p. p \<notin> input_path map_dir ` {..<length args} \<longrightarrow>
            snd (save_inputs c map_dir args fs) p = fs p) \<and>
         card (input_path map_dir ` {..<length args}) = length args \<and>
         (\<forall>i. input_path map_dir i = map_dir @ [INPUTS_DIR, py_str (int i) @ ''.'' @ INPUT_EXT])"
proof -
  have "\<forall>i < length args. fs (input_path map_dir (0 + i)) \<noteq> Some Dir"
    using assms(2) by simp
  note r = save_inputs_from_ok [OF assms(1) this assms(3)]
  have a: "fst (save_inputs c map_dir args fs) = Inr ()"
    using r by (simp add: save_inputs_def)
  have b: "snd (save_inputs c map_dir args fs) (input_path map_dir i)
      = Some (File (container c (args ! i)))" if "i < length args" for i
    using r that by (simp add: save_inputs_def)
  have c: "snd (save_inputs c map_dir args fs) p = fs p"
    if "p \<notin> input_path map_dir ` {..<length args}" for p
  proof -
    from that have "\<forall>i < length args. p \<noteq> input_path map_dir (0 + i)"
      by auto
    with r show ?thesis
      unfolding save_inputs_def by blast
  qed
  have "inj_on (input_path map_dir) {..<length args}"
    by (rule inj_onI) (rule input_path_inj)
  then have d: "card (input_path map_dir ` {..<length args}) = length args"
    by (simp add: card_image)
  have e: "input_path map_dir i = map_dir @ [INPUTS_DIR, py_str (int i) @ ''.'' @ INPUT_EXT]" for i
    by (simp add: input_path_def path_join_def)
  from a b c d e show ?thesis
    by blast
qed

theorem save_inputs_files_witness:
  "fresh_fs (path_join [''m''] INPUTS_DIR) = Some Dir \<and>
   fresh_fs (input_path [''m''] 0) \<noteq> Some Dir \<and>
   fresh_fs (input_path [''m''] 1) \<noteq> Some Dir \<and>
   fresh_fs (input_path [''m''] 2) \<noteq> Some Dir \<and>
   serializable unary_codec 4 \<and> serializable unary_codec 0 \<and> serializable unary_codec 2 \<and>
   (1::nat) < length [4, 0, 2 :: nat] \<and>
   snd (save_inputs unary_codec [''m''] [4, 0, 2] fresh_fs) (input_path [''m''] 1)
     = Some (File (container unary_codec ([4, 0, 2] ! 1))) \<and>
   [''m''] \<notin> input_path [''m''] ` {..<length [4, 0, 2 :: nat]} \<and>
   snd (save_inputs unary_codec [''m''] [4, 0, 2] fresh_fs) [''m''] = fresh_fs [''m'']"
proof -
  have d: "fresh_fs (path_join [''m''] INPUTS_DIR) = Some Dir"
    by (simp add: fresh_fs_def path_join_def INPUTS_DIR_def)
  have n: "\<forall>i < length [4, 0, 2 :: nat]. fresh_fs (input_path [''m''] i) \<noteq> Some Dir"
    by (simp add: fresh_fs_def input_path_def path_join_def)
  have s: "\<forall>a \<in> set [4, 0, 2]. serializable unary_codec a"
    by (simp add: unary_serializable)
  have l: "(1::nat) < length [4, 0, 2 :: nat]"
    by simp
  have m: "[''m''] \<notin> input_path [''m''] ` {..<length [4, 0, 2 :: nat]}"
    by (auto simp: input_path_def path_join_def)
  have n': "fresh_fs (input_path [''m''] i) \<noteq> Some Dir" for i
    by (simp add: fresh_fs_def input_path_def path_join_def)
  from save_inputs_files [where fs = fresh_fs and map_dir = "[''m'']", OF d n s] d n'
    unary_serializable l m
  show ?thesis
    by blast
qed

subsection \<open>The item data: strings\<close>

lemma hex_val_hex_char: "k < 16 \<Longrightarrow> hex_val (hex_char k) = Some k"
  by (auto simp: hex_val_def hex_char_def Let_def)

lemma decode_u4_byte:
  assumes "n < 256"
  shows "decode_u4 (CHR ''0'') (CHR ''0'') (hex_char (n div 16)) (hex_char (n mod 16)) = Some n"
proof -
  have "n div 16 < 16" and "n mod 16 < 16"
    using assms by simp_all
  then have "hex_val (hex_char (n div 16)) = Some (n div 16)"
    and "hex_val (hex_char (n mod 16)) = Some (n mod 16)"
    by (simp_all add: hex_val_hex_char)
  moreover have "hex_val (CHR ''0'') = Some 0"
    by (simp add: hex_val_def)
  ultimately show ?thesis
    by (simp add: decode_u4_def)
qed

lemma scanstring_escape_char: "scanstring (escape_char c @ rest) = scan_cons c (scanstring rest)"
proof -
  let ?n = "of_char c :: nat"
  consider (special) "c \<in> {CHR 0x5C, CHR 0x22, CHR 0x08, CHR 0x0C, CHR 0x0A, CHR 0x0D, CHR 0x09}"
    | (plain) "c \<notin> {CHR 0x5C, CHR 0x22, CHR 0x08, CHR 0x0C, CHR 0x0A, CHR 0x0D, CHR 0x09}"
        "32 \<le> ?n \<and> ?n \<le> 126"
    | (other) "c \<notin> {CHR 0x5C, CHR 0x22, CHR 0x08, CHR 0x0C, CHR 0x0A, CHR 0x0D, CHR 0x09}"
        "\<not> (32 \<le> ?n \<and> ?n \<le> 126)"
    by blast
  then show ?thesis
  proof cases
    case special
    then show ?thesis
      by (auto simp: escape_char_def unescape_def)
  next
    case plain
    then show ?thesis
      by (simp add: escape_char_def)
  next
    case other
    have lt: "?n < 256"
      by simp
    have d: "decode_u4 (CHR ''0'') (CHR ''0'') (hex_char (?n div 16)) (hex_char (?n mod 16)) = Some ?n"
      using lt by (rule decode_u4_byte)
    have "escape_char c = [CHR 0x5C, CHR ''u'', CHR ''0'', CHR ''0'',
        hex_char (?n div 16), hex_char (?n mod 16)]"
      using other by (simp add: escape_char_def)
    then show ?thesis
      using d lt by simp
  qed
qed

lemma scanstring_escaped:
  "scanstring (concat (map escape_char s) @ CHR 0x22 # rest) = Scanned s rest"
proof (induction s)
  case Nil
  then show ?case by simp
next
  case (Cons c s)
  have "scanstring (escape_char c @ (concat (map escape_char s) @ CHR 0x22 # rest))
      = scan_cons c (scanstring (concat (map escape_char s) @ CHR 0x22 # rest))"
    by (rule scanstring_escape_char)
  with Cons show ?case
    by (simp add: scan_cons_def)
qed

subsection \<open>The item data: numbers\<close>

lemma char_of_eq_nat: "char_of (n::nat) = c \<longleftrightarrow> n mod 256 = of_char c"
  by (simp add: char_of_eq_iff take_bit_eq_mod)

lemma digit_char_zero: "d < 10 \<Longrightarrow> digit_char d = CHR ''0'' \<longleftrightarrow> d = 0"
  by (auto simp: digit_char_def char_of_eq_nat)

lemma str_nat_zero: "str_nat 0 = ''0''"
  by (subst str_nat.simps) (simp add: digit_char_def char_of_eq_nat)

lemma str_nat_positive:
  "0 < n \<Longrightarrow> \<exists>d ds. str_nat n = d # ds \<and> is_digit d \<and> d \<noteq> CHR ''0''"
proof (induction n rule: str_nat.induct)
  case (1 n)
  show ?case
  proof (cases "n < 10")
    case True
    with 1(2) have "str_nat n = [digit_char n]" and "digit_char n \<noteq> CHR ''0''"
      and "is_digit (digit_char n)"
      by (subst str_nat.simps, simp_all add: digit_char_zero is_digit_digit_char)
    then show ?thesis by simp
  next
    case False
    then have "0 < n div 10" by simp
    with 1(1) False obtain d ds where "str_nat (n div 10) = d # ds" "is_digit d" "d \<noteq> CHR ''0''"
      by blast
    moreover have "str_nat n = str_nat (n div 10) @ [digit_char (n mod 10)]"
      using False by (subst str_nat.simps) simp
    ultimately show ?thesis by simp
  qed
qed

lemma delimited_not_digit: "delimited (c # cs) \<Longrightarrow> \<not> is_digit c"
  by (auto simp: delimited_def is_digit_def)

lemma delimited_not_float: "delimited rest \<Longrightarrow> \<not> is_float_tail rest"
  by (auto simp: delimited_def is_float_tail_def split: list.splits)

lemma takeWhile_digits:
  assumes "\<forall>c \<in> set ds. is_digit c" and "delimited rest"
  shows "takeWhile is_digit (ds @ rest) = ds" and "dropWhile is_digit (ds @ rest) = rest"
proof -
  have r: "takeWhile is_digit rest = []" "dropWhile is_digit rest = rest"
    using assms(2) delimited_not_digit by (cases rest; simp)+
  from assms(1) show "takeWhile is_digit (ds @ rest) = ds"
    by (simp add: takeWhile_append2 r)
  from assms(1) show "dropWhile is_digit (ds @ rest) = rest"
    by (simp add: dropWhile_append2 r)
qed

lemma scan_number_str_nat:
  assumes "delimited rest" and "neg \<longrightarrow> 0 < n"
  shows "scan_number ((if neg then ''-'' else []) @ str_nat n @ rest)
    = Scanned (PInt (if neg then - int n else int n)) rest"
proof (cases "n = 0")
  case True
  with assms(2) have "\<not> neg" by simp
  with True assms(1) show ?thesis
    by (simp add: str_nat_zero scan_number_def scan_digits_def delimited_not_float digits_value_def
        digit_val_def)
next
  case False
  then obtain d ds where s: "str_nat n = d # ds" and d: "is_digit d" "d \<noteq> CHR ''0''"
    using str_nat_positive [of n] by auto
  have "\<forall>c \<in> set ds. is_digit c"
    using str_nat_digits [of _ n] s by simp
  then have tw: "takeWhile is_digit (ds @ rest) = ds" "dropWhile is_digit (ds @ rest) = rest"
    using assms(1) by (rule takeWhile_digits)+
  have m: "d \<noteq> CHR ''-''"
    using d(1) is_digit_not_sign by blast
  have v: "digits_value (d # ds) = n"
    using digits_value_str_nat [of n] s by simp
  show ?thesis
    using d m assms(1)
    by (simp add: s scan_number_def scan_digits_def tw v delimited_not_float)
qed

lemma scan_number_py_str:
  assumes "delimited rest"
  shows "scan_number (py_str i @ rest) = Scanned (PInt i) rest"
proof (cases "i < 0")
  case True
  then have "scan_number ((if True then ''-'' else []) @ str_nat (nat (- i)) @ rest)
      = Scanned (PInt (if True then - int (nat (- i)) else int (nat (- i)))) rest"
    by (intro scan_number_str_nat assms) simp
  with True show ?thesis
    by (simp add: py_str_def)
next
  case False
  have "scan_number ((if False then ''-'' else []) @ str_nat (nat i) @ rest)
      = Scanned (PInt (if False then - int (nat i) else int (nat i))) rest"
    by (intro scan_number_str_nat assms) simp
  with False show ?thesis
    by (simp add: py_str_def)
qed

lemma py_str_head:
  "\<exists>c cs. py_str i = c # cs \<and> (c = CHR ''-'' \<or> is_digit c)"
proof -
  obtain c cs where "py_str i = c # cs"
    using py_str_nonempty [of i] by (cases "py_str i") auto
  moreover from this have "c = CHR ''-'' \<or> is_digit c"
    using py_str_chars [of c i] by simp
  ultimately show ?thesis by blast
qed

lemma scan_once_py_str:
  assumes "delimited rest"
  shows "scan_once (Suc n) (py_str i @ rest) = Scanned (PInt i) rest"
proof -
  obtain c cs where s: "py_str i = c # cs" and c: "c = CHR ''-'' \<or> is_digit c"
    using py_str_head by blast
  from c have "c \<noteq> CHR 0x22" "c \<noteq> CHR ''{''" "c \<noteq> CHR ''[''" "c \<noteq> CHR ''n''"
    "c \<noteq> CHR ''t''" "c \<noteq> CHR ''f''"
    by (auto simp: is_digit_def)
  then have "scan_once (Suc n) (c # cs @ rest) = scan_number (c # cs @ rest)"
    by simp
  then show ?thesis
    using scan_number_py_str [OF assms, of i] s by simp
qed

subsection \<open>The item data: values\<close>

lemma starts_value_append: "starts_value s \<Longrightarrow> starts_value (s @ t)"
  by (cases s) (simp_all add: starts_value_def)

lemma starts_value_skip_ws: "starts_value s \<Longrightarrow> skip_ws s = s"
  by (cases s) (simp_all add: starts_value_def skip_ws_def)

lemma starts_value_encode: "starts_value (encode isep ksep x)"
proof (cases x)
  case (PInt i)
  obtain c cs where "py_str i = c # cs" and "c = CHR ''-'' \<or> is_digit c"
    using py_str_head by blast
  with PInt show ?thesis
    by (auto simp: starts_value_def is_json_ws_def is_digit_def)
qed (simp_all add: starts_value_def is_json_ws_def encode_str_def)

lemma encode_nonempty: "0 < length (encode isep ksep x)"
  using starts_value_encode [of isep ksep x] by (cases "encode isep ksep x") (simp_all add: starts_value_def)

lemma starts_value_encode_items: "xs \<noteq> [] \<Longrightarrow> starts_value (encode_items isep ksep xs)"
proof (cases xs)
  case Nil
  assume "xs \<noteq> []"
  with Nil show ?thesis by simp
next
  case (Cons x ys)
  then show ?thesis
    using starts_value_encode [of isep ksep x]
    by (cases ys) (simp_all add: starts_value_append)
qed

lemma delimited_simps:
  "delimited (CHR '','' # s)" "delimited (CHR '']'' # s)" "delimited (CHR ''}'' # s)" "delimited []"
  by (simp_all add: delimited_def)

lemma skip_ws_delimiter:
  "skip_ws (CHR '','' # s) = CHR '','' # s" "skip_ws (CHR '']'' # s) = CHR '']'' # s"
  "skip_ws (CHR ''}'' # s) = CHR ''}'' # s" "skip_ws (CHR '':'' # s) = CHR '':'' # s"
  by (simp_all add: skip_ws_def is_json_ws_def)

lemma dict_set_fresh: "k \<notin> fst ` set d \<Longrightarrow> dict_set d k v = d @ [(k, v)]"
  by (induction d) auto

lemma foldl_dict_set:
  "distinct (map fst (d @ kvs)) \<Longrightarrow> foldl (\<lambda>d (k, v). dict_set d k v) d kvs = d @ kvs"
proof (induction kvs arbitrary: d)
  case Nil
  then show ?case by simp
next
  case (Cons kv kvs)
  obtain k v where kv: "kv = (k, v)" by (cases kv)
  from Cons.prems have "k \<notin> fst ` set d"
    by (auto simp: kv)
  then have "dict_set d k v = d @ [(k, v)]"
    by (rule dict_set_fresh)
  moreover from Cons.prems have "distinct (map fst ((d @ [(k, v)]) @ kvs))"
    by (simp add: kv)
  then have "foldl (\<lambda>d (k, v). dict_set d k v) (d @ [(k, v)]) kvs = (d @ [(k, v)]) @ kvs"
    by (rule Cons.IH)
  ultimately show ?case
    by (simp add: kv)
qed

lemma dict_of_distinct: "distinct (map fst kvs) \<Longrightarrow> dict_of kvs = kvs"
  using foldl_dict_set [of "[]" kvs] by (simp add: dict_of_def)

lemma array_loop_last:
  assumes "scan_once n (e @ CHR '']'' # rest) = Scanned x (CHR '']'' # rest)"
  shows "array_loop (Suc n) (e @ CHR '']'' # rest) = Scanned [x] rest"
  using assms by (simp add: skip_ws_delimiter)

lemma array_loop_more:
  assumes "scan_once n (e @ CHR '','' # t) = Scanned x (CHR '','' # t)"
    and "starts_value t" and "array_loop n t = Scanned xs rest"
  shows "array_loop (Suc n) (e @ CHR '','' # t) = Scanned (x # xs) rest"
  using assms by (simp add: skip_ws_delimiter starts_value_skip_ws)

lemma object_loop_key:
  "object_loop (Suc n) (encode_str k @ CHR '':'' # t) =
     (case scan_once n (skip_ws t) of
        Fails e \<Rightarrow> Fails e
      | NoAnswer \<Rightarrow> NoAnswer
      | Scanned v r2 \<Rightarrow>
          (case skip_ws r2 of
             [] \<Rightarrow> Fails JSONDecodeError
           | d # ds \<Rightarrow>
               if d = CHR ''}'' then Scanned [(k, v)] ds
               else if d \<noteq> CHR '','' then Fails JSONDecodeError
               else
                 (case object_loop n (skip_ws ds) of
                    Scanned ps rest \<Rightarrow> Scanned ((k, v) # ps) rest
                  | Fails e \<Rightarrow> Fails e
                  | NoAnswer \<Rightarrow> NoAnswer)))"
proof -
  have "scanstring (concat (map escape_char k) @ CHR 0x22 # CHR '':'' # t) = Scanned k (CHR '':'' # t)"
    by (rule scanstring_escaped)
  then show ?thesis
    by (simp add: encode_str_def skip_ws_delimiter)
qed

lemma object_loop_last:
  assumes "scan_once n (e @ CHR ''}'' # rest) = Scanned v (CHR ''}'' # rest)" and "starts_value e"
  shows "object_loop (Suc n) (encode_str k @ CHR '':'' # e @ CHR ''}'' # rest) = Scanned [(k, v)] rest"
proof -
  have "skip_ws (e @ CHR ''}'' # rest) = e @ CHR ''}'' # rest"
    using assms(2) by (intro starts_value_skip_ws starts_value_append)
  then show ?thesis
    using assms(1) by (simp add: object_loop_key skip_ws_delimiter)
qed

lemma object_loop_more:
  assumes "scan_once n (e @ CHR '','' # t) = Scanned v (CHR '','' # t)" and "starts_value e"
    and "starts_value t" and "object_loop n t = Scanned ps rest"
  shows "object_loop (Suc n) (encode_str k @ CHR '':'' # e @ CHR '','' # t) = Scanned ((k, v) # ps) rest"
proof -
  have "skip_ws (e @ CHR '','' # t) = e @ CHR '','' # t"
    using assms(2) by (intro starts_value_skip_ws starts_value_append)
  then show ?thesis
    using assms(1,3,4) by (simp add: object_loop_key skip_ws_delimiter starts_value_skip_ws)
qed

lemma starts_value_encode_pairs: "kvs \<noteq> [] \<Longrightarrow> starts_value (encode_pairs isep ksep kvs)"
proof (cases kvs)
  case Nil
  assume "kvs \<noteq> []"
  with Nil show ?thesis by simp
next
  case (Cons kv rest)
  obtain k v where "kv = (k, v)" by (cases kv)
  with Cons show ?thesis
    by (cases rest) (simp_all add: starts_value_def encode_str_def is_json_ws_def)
qed

lemma encode_pairs_head:
  "kvs \<noteq> [] \<Longrightarrow> \<exists>t. encode_pairs isep ksep kvs = CHR 0x22 # t"
proof (cases kvs)
  case Nil
  assume "kvs \<noteq> []"
  with Nil show ?thesis by simp
next
  case (Cons kv rest)
  obtain k v where "kv = (k, v)" by (cases kv)
  with Cons show ?thesis
    by (cases rest) (simp_all add: encode_str_def)
qed

lemma length_encode_str: "2 \<le> length (encode_str k)"
  by (simp add: encode_str_def)

lemma scan_once_array:
  assumes "starts_value t" and "array_loop n t = Scanned xs rest"
  shows "scan_once (Suc n) (CHR ''['' # t) = Scanned (PList xs) rest"
proof -
  from assms(1) obtain d ds where t: "t = d # ds" and d: "d \<noteq> CHR '']''" "\<not> is_json_ws d"
    by (cases t) (auto simp: starts_value_def)
  from d(2) have "skip_ws (d # ds) = d # ds"
    by (simp add: skip_ws_def)
  with assms(2) d(1) show ?thesis
    unfolding t by (simp del: array_loop.simps)
qed

lemma scan_once_object:
  assumes "starts_value t" and "object_loop n t = Scanned kvs rest"
  shows "scan_once (Suc n) (CHR ''{'' # t) = Scanned (PDict (dict_of kvs)) rest"
proof -
  from assms(1) obtain d ds where t: "t = d # ds" and d: "d \<noteq> CHR ''}''" "\<not> is_json_ws d"
    by (cases t) (auto simp: starts_value_def)
  from d(2) have "skip_ws (d # ds) = d # ds"
    by (simp add: skip_ws_def)
  with assms(2) d(1) show ?thesis
    unfolding t by (simp del: object_loop.simps)
qed

lemma scan_encode:
  "isep = '','' \<Longrightarrow> ksep = '':'' \<Longrightarrow> wf_val x \<Longrightarrow> length (encode isep ksep x) < fuel \<Longrightarrow>
     delimited rest \<Longrightarrow> scan_once fuel (encode isep ksep x @ rest) = Scanned x rest"
  and "isep = '','' \<Longrightarrow> ksep = '':'' \<Longrightarrow> xs \<noteq> [] \<Longrightarrow> wf_items xs \<Longrightarrow>
     Suc (length (encode_items isep ksep xs)) < fuel \<Longrightarrow>
     array_loop fuel (encode_items isep ksep xs @ CHR '']'' # rest) = Scanned xs rest"
  and "isep = '','' \<Longrightarrow> ksep = '':'' \<Longrightarrow> kvs \<noteq> [] \<Longrightarrow> wf_pairs kvs \<Longrightarrow>
     Suc (length (encode_pairs isep ksep kvs)) < fuel \<Longrightarrow>
     object_loop fuel (encode_pairs isep ksep kvs @ CHR ''}'' # rest) = Scanned kvs rest"
proof (induction isep ksep x and isep ksep xs and isep ksep kvs
    arbitrary: fuel rest and fuel rest and fuel rest
    rule: encode_encode_items_encode_pairs.induct)
  case (1 isep ksep)
  then obtain n where "fuel = Suc n"
    by (cases fuel) auto
  then show ?case
    by simp
next
  case (2 isep ksep b)
  then obtain n where "fuel = Suc n"
    by (cases fuel) auto
  then show ?case
    by (cases b) simp_all
next
  case (3 isep ksep i)
  then obtain n where "fuel = Suc n"
    by (cases fuel) auto
  with "3.prems" show ?case
    by (simp add: scan_once_py_str)
next
  case (4 isep ksep s)
  then obtain n where "fuel = Suc n"
    by (cases fuel) auto
  then show ?case
    by (simp add: encode_str_def scanstring_escaped)
next
  case (5 isep ksep xs)
  then obtain n where n: "fuel = Suc n"
    by (cases fuel) auto
  show ?case
  proof (cases "xs = []")
    case True
    then show ?thesis
      by (simp add: n skip_ws_delimiter)
  next
    case False
    let ?t = "encode_items isep ksep xs @ CHR '']'' # rest"
    have sv: "starts_value ?t"
      using False by (intro starts_value_append starts_value_encode_items)
    have "Suc (length (encode_items isep ksep xs)) < n"
      using "5.prems"(4) n by simp
    then have "array_loop n ?t = Scanned xs rest"
      using "5.IH" "5.prems" False by simp
    with sv have "scan_once (Suc n) (CHR ''['' # ?t) = Scanned (PList xs) rest"
      by (rule scan_once_array)
    then show ?thesis
      by (simp add: n)
  qed
next
  case (6 isep ksep kvs)
  then obtain n where n: "fuel = Suc n"
    by (cases fuel) auto
  show ?case
  proof (cases "kvs = []")
    case True
    then show ?thesis
      by (simp add: n skip_ws_delimiter)
  next
    case False
    let ?t = "encode_pairs isep ksep kvs @ CHR ''}'' # rest"
    have sv: "starts_value ?t"
      using False by (intro starts_value_append starts_value_encode_pairs)
    have "Suc (length (encode_pairs isep ksep kvs)) < n"
      using "6.prems"(4) n by simp
    moreover from "6.prems"(3) have w: "wf_pairs kvs" and di: "distinct (map fst kvs)"
      by simp_all
    ultimately have "object_loop n ?t = Scanned kvs rest"
      using "6.IH" "6.prems"(1,2) False by simp
    with sv have "scan_once (Suc n) (CHR ''{'' # ?t) = Scanned (PDict (dict_of kvs)) rest"
      by (rule scan_once_object)
    then show ?thesis
      by (simp add: n dict_of_distinct [OF di])
  qed
next
  case (7 isep ksep)
  then show ?case by simp
next
  case (8 isep ksep x)
  then obtain n where n: "fuel = Suc n"
    by (cases fuel) auto
  have "length (encode isep ksep x) < n"
    using "8.prems"(5) n by simp
  moreover have "wf_val x"
    using "8.prems"(4) by simp
  ultimately have "scan_once n (encode isep ksep x @ CHR '']'' # rest) = Scanned x (CHR '']'' # rest)"
    using "8.IH" "8.prems"(1,2) by (simp add: delimited_simps)
  then have "array_loop (Suc n) (encode isep ksep x @ CHR '']'' # rest) = Scanned [x] rest"
    by (rule array_loop_last)
  then show ?case
    by (simp add: n)
next
  case (9 isep ksep x y ys)
  then obtain n where n: "fuel = Suc n"
    by (cases fuel) auto
  let ?t = "encode_items isep ksep (y # ys) @ CHR '']'' # rest"
  have len: "Suc (length (encode isep ksep x) + 1 + length (encode_items isep ksep (y # ys))) < Suc n"
    using "9.prems"(5) n "9.prems"(1) by simp
  have "length (encode isep ksep x) < n"
    using len by simp
  moreover have "wf_val x" and w: "wf_items (y # ys)"
    using "9.prems"(4) by simp_all
  ultimately have a: "scan_once n (encode isep ksep x @ CHR '','' # ?t) = Scanned x (CHR '','' # ?t)"
    using "9.IH"(1) "9.prems"(1,2) by (simp add: delimited_simps)
  have "Suc (length (encode_items isep ksep (y # ys))) < n"
    using len encode_nonempty [of isep ksep x] by simp
  then have b: "array_loop n ?t = Scanned (y # ys) rest"
    using "9.IH"(2) "9.prems"(1,2) w by simp
  have sv: "starts_value ?t"
    by (intro starts_value_append starts_value_encode_items) simp
  have "array_loop (Suc n) (encode isep ksep x @ CHR '','' # ?t) = Scanned (x # y # ys) rest"
    using a sv b by (rule array_loop_more)
  then show ?case
    by (simp add: n "9.prems"(1))
next
  case (10 isep ksep)
  then show ?case by simp
next
  case (11 isep ksep k v)
  then obtain n where n: "fuel = Suc n"
    by (cases fuel) auto
  have "length (encode isep ksep v) < n"
    using "11.prems"(5) n by simp
  moreover have "wf_val v"
    using "11.prems"(4) by simp
  ultimately have "scan_once n (encode isep ksep v @ CHR ''}'' # rest) = Scanned v (CHR ''}'' # rest)"
    using "11.IH" "11.prems"(1,2) by (simp add: delimited_simps)
  then have "object_loop (Suc n) (encode_str k @ CHR '':'' # encode isep ksep v @ CHR ''}'' # rest)
      = Scanned [(k, v)] rest"
    using starts_value_encode by (rule object_loop_last)
  then show ?case
    by (simp add: n "11.prems"(2))
next
  case (12 isep ksep k v kv kvs)
  then obtain n where n: "fuel = Suc n"
    by (cases fuel) auto
  let ?t = "encode_pairs isep ksep (kv # kvs) @ CHR ''}'' # rest"
  have len: "Suc (length (encode_str k) + 1 + length (encode isep ksep v) + 1
      + length (encode_pairs isep ksep (kv # kvs))) < Suc n"
    using "12.prems"(5) n "12.prems"(1,2) by simp
  have "length (encode isep ksep v) < n"
    using len by simp
  moreover have "wf_val v" and w: "wf_pairs (kv # kvs)"
    using "12.prems"(4) by simp_all
  ultimately have a: "scan_once n (encode isep ksep v @ CHR '','' # ?t) = Scanned v (CHR '','' # ?t)"
    using "12.IH"(1) "12.prems"(1,2) by (simp add: delimited_simps)
  have "Suc (length (encode_pairs isep ksep (kv # kvs))) < n"
    using len by simp
  then have b: "object_loop n ?t = Scanned (kv # kvs) rest"
    using "12.IH"(2) "12.prems"(1,2) w by simp
  have sv: "starts_value ?t"
    by (intro starts_value_append starts_value_encode_pairs) simp
  have "object_loop (Suc n) (encode_str k @ CHR '':'' # encode isep ksep v @ CHR '','' # ?t)
      = Scanned ((k, v) # kv # kvs) rest"
    using a starts_value_encode sv b by (rule object_loop_more)
  then show ?case
    by (simp add: n "12.prems"(1,2))
qed

lemma json_loads_encode:
  assumes "wf_val x"
  shows "json_loads (encode '','' '':'' x) = Some (Inr x)"
proof -
  let ?s = "encode '','' '':'' x"
  have "scan_once (Suc (length ?s)) (?s @ []) = Scanned x []"
    using assms by (intro scan_encode(1)) (simp_all add: delimited_simps)
  moreover have "skip_ws ?s = ?s"
    using starts_value_encode by (rule starts_value_skip_ws)
  ultimately show ?thesis
    by (simp add: json_loads_def skip_ws_def)
qed

subsection \<open>Whitespace and length of the compact encoding\<close>

lemma hex_char_not_ws: "k < 16 \<Longrightarrow> \<not> is_json_ws (hex_char k)"
  by (auto simp: is_json_ws_def hex_char_def char_of_eq_nat)

lemma ws_escape_char:
  "filter is_json_ws (escape_char c) = (if c = CHR '' '' then [CHR '' ''] else [])"
proof -
  let ?n = "of_char c :: nat"
  have h: "\<not> is_json_ws (hex_char (?n div 16))" "\<not> is_json_ws (hex_char (?n mod 16))"
    by (simp_all add: hex_char_not_ws less_mult_imp_div_less)
  show ?thesis
    using h by (auto simp: escape_char_def is_json_ws_def)
qed

lemma ws_encode_str: "filter is_json_ws (encode_str s) = replicate (count_spaces s) (CHR '' '')"
proof -
  have "filter is_json_ws (concat (map escape_char s)) = replicate (count_spaces s) (CHR '' '')"
    by (induction s) (simp_all add: ws_escape_char count_spaces_def)
  then show ?thesis
    by (simp add: encode_str_def is_json_ws_def)
qed

lemma ws_py_str: "filter is_json_ws (py_str i) = []"
proof -
  have "\<not> is_json_ws c" if "c \<in> set (py_str i)" for c
    using py_str_chars [OF that] by (auto simp: is_json_ws_def is_digit_def)
  then show ?thesis
    by (simp add: filter_empty_conv)
qed

lemma ws_encode:
  "isep = '','' \<Longrightarrow> ksep = '':'' \<Longrightarrow>
     filter is_json_ws (encode isep ksep x) = replicate (spaces x) (CHR '' '')"
  and "isep = '','' \<Longrightarrow> ksep = '':'' \<Longrightarrow>
     filter is_json_ws (encode_items isep ksep xs) = replicate (spaces_items xs) (CHR '' '')"
  and "isep = '','' \<Longrightarrow> ksep = '':'' \<Longrightarrow>
     filter is_json_ws (encode_pairs isep ksep kvs) = replicate (spaces_pairs kvs) (CHR '' '')"
proof (induction isep ksep x and isep ksep xs and isep ksep kvs
    rule: encode_encode_items_encode_pairs.induct)
  case (2 isep ksep b)
  then show ?case by (cases b) (simp_all add: is_json_ws_def)
qed (simp_all add: is_json_ws_def ws_encode_str ws_py_str replicate_add)

lemma length_encode_mono:
  "isep \<noteq> [] \<Longrightarrow> ksep \<noteq> [] \<Longrightarrow>
     length (encode '','' '':'' x) \<le> length (encode isep ksep x)"
  and "isep \<noteq> [] \<Longrightarrow> ksep \<noteq> [] \<Longrightarrow>
     length (encode_items '','' '':'' xs) \<le> length (encode_items isep ksep xs)"
  and "isep \<noteq> [] \<Longrightarrow> ksep \<noteq> [] \<Longrightarrow>
     length (encode_pairs '','' '':'' kvs) \<le> length (encode_pairs isep ksep kvs)"
proof (induction isep ksep x and isep ksep xs and isep ksep kvs
    rule: encode_encode_items_encode_pairs.induct)
  case (9 isep ksep x y ys)
  have a: "Suc 0 \<le> length isep"
    using "9.prems"(1) by (cases isep) simp_all
  have "length (encode '','' '':'' x) \<le> length (encode isep ksep x)"
    and "length (encode_items '','' '':'' (y # ys)) \<le> length (encode_items isep ksep (y # ys))"
    using "9.IH" "9.prems" by simp_all
  with a show ?case by simp
next
  case (11 isep ksep k v)
  have a: "Suc 0 \<le> length ksep"
    using "11.prems"(2) by (cases ksep) simp_all
  have "length (encode '','' '':'' v) \<le> length (encode isep ksep v)"
    using "11.IH" "11.prems" by simp
  with a show ?case by simp
next
  case (12 isep ksep k v kv kvs)
  have a: "Suc 0 \<le> length isep"
    using "12.prems"(1) by (cases isep) simp_all
  have b: "Suc 0 \<le> length ksep"
    using "12.prems"(2) by (cases ksep) simp_all
  have "length (encode '','' '':'' v) \<le> length (encode isep ksep v)"
    and "length (encode_pairs '','' '':'' (kv # kvs)) \<le> length (encode_pairs isep ksep (kv # kvs))"
    using "12.IH" "12.prems" by simp_all
  with a b show ?case by simp
qed simp_all

lemma encode_no_cr: "CHR 0x0D \<notin> set (encode '','' '':'' x)"
proof
  assume "CHR 0x0D \<in> set (encode '','' '':'' x)"
  then have "CHR 0x0D \<in> set (filter is_json_ws (encode '','' '':'' x))"
    by (simp add: is_json_ws_def)
  then show False
    by (simp add: ws_encode(1))
qed

lemma wf_items_dicts: "wf_items (map PDict ds) \<longleftrightarrow> (\<forall>d \<in> set ds. wf_val (PDict d))"
  by (induction ds) simp_all

text \<open>
  Claim C9. For every list of string-keyed mappings, the empty mapping and the empty
  list included, \<^verbatim>\<open>save_itemdata\<close> and then \<^verbatim>\<open>load_itemdata\<close> gives the list back
  exactly, and the stored encoding is the most compact one, without extraneous
  whitespace. Here for mappings with distinct keys in an existing map directory: the save
  succeeds; the load returns the list; the file holds the encoding with the separators
  \<^verbatim>\<open>,\<close> and \<^verbatim>\<open>:\<close>; its only whitespace characters are the spaces of the strings of
  the data; and it is not longer than the encoding with any other non-empty separators.
\<close>

theorem save_then_load_itemdata:
  assumes "fs map_dir = Some Dir" and "fs (itemdata_path map_dir) \<noteq> Some Dir"
    and "\<forall>d \<in> set itemdata. wf_val (PDict d)"
  shows "fst (save_itemdata map_dir itemdata fs) = Inr () \<and>
         load_itemdata map_dir (snd (save_itemdata map_dir itemdata fs))
           = Some (Inr (PList (map PDict itemdata))) \<and>
         snd (save_itemdata map_dir itemdata fs) (itemdata_path map_dir)
           = Some (File (encode '','' '':'' (PList (map PDict itemdata)))) \<and>
         filter is_json_ws (encode '','' '':'' (PList (map PDict itemdata)))
           = replicate (spaces (PList (map PDict itemdata))) (CHR '' '') \<and>
         (\<forall>isep ksep. isep \<noteq> [] \<and> ksep \<noteq> [] \<longrightarrow>
            length (encode '','' '':'' (PList (map PDict itemdata)))
              \<le> length (encode isep ksep (PList (map PDict itemdata))))"
proof -
  let ?p = "itemdata_path map_dir"
  let ?x = "PList (map PDict itemdata)"
  let ?text = "encode '','' '':'' ?x"
  have w: "wf_val ?x"
    using assms(3) by (simp add: wf_items_dicts)
  have s: "save_itemdata map_dir itemdata fs = (Inr (), fs(?p \<mapsto> File ?text))"
    using assms(1,2)
    by (simp add: save_itemdata_def open_w_ok file_write_def itemdata_path_def butlast_path_join)
  have "read_text ?p (fs(?p \<mapsto> File ?text)) = Inr ?text"
    by (simp add: read_text_file universal_newlines_no_cr encode_no_cr del: encode.simps)
  then have l: "load_itemdata map_dir (fs(?p \<mapsto> File ?text)) = Some (Inr ?x)"
    using json_loads_encode [OF w] by (simp add: load_itemdata_def del: encode.simps)
  have c: "filter is_json_ws ?text = replicate (spaces ?x) (CHR '' '')"
    by (rule ws_encode(1)) simp_all
  have m: "length ?text \<le> length (encode isep ksep ?x)" if "isep \<noteq> []" "ksep \<noteq> []" for isep ksep
    using that by (rule length_encode_mono(1))
  from s l c m show ?thesis
    by (simp del: encode.simps)
qed

theorem save_then_load_itemdata_witness:
  "fresh_fs [''m''] = Some Dir \<and> fresh_fs (itemdata_path [''m'']) \<noteq> Some Dir \<and>
   wf_val (PDict [(''component'', PInt 0), (''args'', PStr ''a b'')]) \<and> wf_val (PDict []) \<and>
   load_itemdata [''m''] (snd (save_itemdata [''m''] example_itemdata fresh_fs))
     = Some (Inr (PList (map PDict example_itemdata))) \<and>
   load_itemdata [''m''] (snd (save_itemdata [''m''] [] fresh_fs)) = Some (Inr (PList [])) \<and>
   '', '' \<noteq> [] \<and> '': '' \<noteq> [] \<and>
   length (encode '','' '':'' (PList (map PDict example_itemdata)))
     \<le> length (encode '', '' '': '' (PList (map PDict example_itemdata)))"
proof -
  have d: "fresh_fs [''m''] = Some Dir"
    by (simp add: fresh_fs_def)
  have f: "fresh_fs (itemdata_path [''m'']) \<noteq> Some Dir"
    by (simp add: fresh_fs_def itemdata_path_def path_join_def ITEMDATA_def)
  have w1: "wf_val (PDict [(''component'', PInt 0), (''args'', PStr ''a b'')])"
    and w2: "wf_val (PDict [])"
    by simp_all
  have w: "\<forall>d \<in> set example_itemdata. wf_val (PDict d)"
    by (simp add: example_itemdata_def)
  have e: "\<forall>d \<in> set ([] :: (string \<times> pyval) list list). wf_val (PDict d)"
    by simp
  have ne: "'', '' \<noteq> []" "'': '' \<noteq> []"
    by simp_all
  note t = save_then_load_itemdata [where fs = fresh_fs and map_dir = "[''m'']", OF d f w]
  note u = save_then_load_itemdata [where fs = fresh_fs and map_dir = "[''m'']", OF d f e]
  have r1: "load_itemdata [''m''] (snd (save_itemdata [''m''] example_itemdata fresh_fs))
      = Some (Inr (PList (map PDict example_itemdata)))"
    using t by blast
  have r2: "load_itemdata [''m''] (snd (save_itemdata [''m''] [] fresh_fs)) = Some (Inr (PList []))"
    using u by simp
  have r3: "length (encode '','' '':'' (PList (map PDict example_itemdata)))
      \<le> length (encode '', '' '': '' (PList (map PDict example_itemdata)))"
    using t ne by blast
  from d f w1 w2 r1 r2 r3 ne show ?thesis
    by blast
qed

end
